theory Spec2Isabelle
  imports Main "HOL-Library.Word" "HOL-Library.Signed_Division"
begin

section \<open>Data model\<close>

text \<open>
  An instant is \<^verbatim>\<open>struct { int64_t nanos; }\<close>.  The 64-bit field is a \<open>64 word\<close>:
  \<open>sint\<close> reads it as two's complement, and arithmetic that the C code carries out in
  \<^verbatim>\<open>int64_t\<close> and that can leave the 64-bit range is word arithmetic, which wraps.
  Variables of C type \<^verbatim>\<open>int\<close> hold at most five-digit values everywhere below and are
  modelled as \<open>int\<close>.  C's \<^verbatim>\<open>/\<close> and \<^verbatim>\<open>%\<close> truncate towards zero: they are
  \<open>sdiv\<close> and \<open>smod\<close>.
\<close>

type_synonym int64_t = "64 word"

record ut_timestamp_t =
  nanos :: int64_t

datatype ut_error_t =
    UT_OK
  | UT_ERR_INVALID_FORMAT
  | UT_ERR_INVALID_DATE
  | UT_ERR_OUT_OF_RANGE
  | UT_ERR_UNSUPPORTED_OFFSET
  | UT_ERR_FRACTION_TOO_LONG
  | UT_ERR_LEAP_SECOND
  | UT_ERR_NULL_POINTER

text \<open>The seven output parameters of \<^verbatim>\<open>ut_internal_from_nanos\<close>, as one record.\<close>

record broken_down =
  tm_year :: int
  tm_month :: int
  tm_day :: int
  tm_hour :: int
  tm_minute :: int
  tm_second :: int
  tm_frac_nanos :: int

section \<open>Calendar arithmetic (core/ut_core.c)\<close>

definition DAYS_IN_MONTH :: "int list" where
  "DAYS_IN_MONTH = [0, 31, 28, 31, 30, 31, 30, 31, 31, 30, 31, 30, 31]"

definition NANOS_PER_SECOND :: int where "NANOS_PER_SECOND = 1000000000"
definition SECONDS_PER_MINUTE :: int where "SECONDS_PER_MINUTE = 60"
definition SECONDS_PER_HOUR :: int where "SECONDS_PER_HOUR = 3600"
definition SECONDS_PER_DAY :: int where "SECONDS_PER_DAY = 86400"

definition ut_internal_is_leap_year :: "int \<Rightarrow> bool" where
  "ut_internal_is_leap_year year \<longleftrightarrow>
     (year smod 4 = 0 \<and> year smod 100 \<noteq> 0) \<or> year smod 400 = 0"

definition ut_internal_days_in_month :: "int \<Rightarrow> int \<Rightarrow> int" where
  "ut_internal_days_in_month year month =
     (if month < 1 \<or> month > 12 then 0
      else if month = 2 \<and> ut_internal_is_leap_year year then 29
      else DAYS_IN_MONTH ! nat month)"

definition ut_internal_validate_date :: "int \<Rightarrow> int \<Rightarrow> int \<Rightarrow> bool" where
  "ut_internal_validate_date year month day =
     (if year < 0 \<or> year > 9999 then False
      else if month < 1 \<or> month > 12 then False
      else if day < 1 \<or> day > ut_internal_days_in_month year month then False
      else True)"

text \<open>
  The expression \<^verbatim>\<open>ut_internal_is_leap_year(y) ? 366 : 365\<close>, which the source writes
  out at each of its uses.
\<close>

definition days_in_year :: "int \<Rightarrow> int" where
  "days_in_year y = (if ut_internal_is_leap_year y then 366 else 365)"

text \<open>
  The three loops of \<^verbatim>\<open>days_from_epoch\<close>: \<^verbatim>\<open>for (y = 1970; y < year; y++) days += ...\<close>,
  \<^verbatim>\<open>for (y = year; y < 1970; y++) days -= ...\<close> and
  \<^verbatim>\<open>for (m = 1; m < month; m++) days += ...\<close>, each with its loop variable and the
  accumulator \<^verbatim>\<open>days\<close> as arguments.
\<close>

function years_up_loop :: "int \<Rightarrow> int \<Rightarrow> int \<Rightarrow> int" where
  "years_up_loop y year days =
     (if y < year then years_up_loop (y + 1) year (days + days_in_year y) else days)"
  by pat_completeness auto
termination
  by (relation "measure (\<lambda>(y, year, days). nat (year - y))") auto

function years_down_loop :: "int \<Rightarrow> int \<Rightarrow> int" where
  "years_down_loop y days =
     (if y < 1970 then years_down_loop (y + 1) (days - days_in_year y) else days)"
  by pat_completeness auto
termination
  by (relation "measure (\<lambda>(y, days). nat (1970 - y))") auto

function months_loop :: "int \<Rightarrow> int \<Rightarrow> int \<Rightarrow> int \<Rightarrow> int" where
  "months_loop year m month days =
     (if m < month then months_loop year (m + 1) month (days + ut_internal_days_in_month year m)
      else days)"
  by pat_completeness auto
termination
  by (relation "measure (\<lambda>(year, m, month, days). nat (month - m))") auto

definition days_from_epoch :: "int \<Rightarrow> int \<Rightarrow> int \<Rightarrow> int" where
  "days_from_epoch year month day =
     (let days = 0;
          days = (if year \<ge> 1970 then years_up_loop 1970 year days
                  else years_down_loop year days);
          days = months_loop year 1 month days;
          days = days + (day - 1)
      in days)"

text \<open>
  \<^verbatim>\<open>ut_internal_to_nanos\<close>.  The day count fits 64 bits for every \<^verbatim>\<open>int\<close> year; the
  products and sums that follow are \<^verbatim>\<open>int64_t\<close> arithmetic and are taken in
  \<open>64 word\<close>.  \<open>word_of_int\<close> is the conversion \<^verbatim>\<open>(int64_t)hour\<close>.
\<close>

definition ut_internal_to_nanos ::
  "int \<Rightarrow> int \<Rightarrow> int \<Rightarrow> int \<Rightarrow> int \<Rightarrow> int \<Rightarrow> int \<Rightarrow> int64_t" where
  "ut_internal_to_nanos year month day hour minute second frac_nanos =
     (let days = (word_of_int (days_from_epoch year month day) :: int64_t);
          seconds = days * word_of_int SECONDS_PER_DAY
                    + word_of_int hour * word_of_int SECONDS_PER_HOUR
                    + word_of_int minute * word_of_int SECONDS_PER_MINUTE
                    + word_of_int second
      in seconds * word_of_int NANOS_PER_SECOND + word_of_int frac_nanos)"

text \<open>
  The loops of \<^verbatim>\<open>ut_internal_from_nanos\<close>.  The two year walks terminate for every
  argument.  The month walk \<^verbatim>\<open>while (1) { ... if (days < days_in_month) break; ... m++; }\<close>
  does not: past month 12 the month length is 0 and a non-negative \<^verbatim>\<open>days\<close> never
  falls below it.  It is a partial function, with \<open>None\<close> for the run that never
  leaves the loop.
\<close>

function year_walk_up :: "int \<Rightarrow> int \<Rightarrow> int \<times> int" where
  "year_walk_up y days =
     (if days < days_in_year y then (y, days)
      else year_walk_up (y + 1) (days - days_in_year y))"
  by pat_completeness auto
termination
  by (relation "measure (\<lambda>(y, days). nat days)") (auto simp: days_in_year_def split: if_splits)

function year_walk_down :: "int \<Rightarrow> int \<Rightarrow> int \<times> int" where
  "year_walk_down y days =
     (if days < 0 then year_walk_down (y - 1) (days + days_in_year (y - 1))
      else (y, days))"
  by pat_completeness auto
termination
  by (relation "measure (\<lambda>(y, days). nat (- days))") (auto simp: days_in_year_def)

partial_function (option) month_walk :: "int \<Rightarrow> int \<Rightarrow> int \<Rightarrow> (int \<times> int) option" where
  "month_walk y m days =
     (if days < ut_internal_days_in_month y m then Some (m, days)
      else month_walk y (m + 1) (days - ut_internal_days_in_month y m))"

text \<open>
  \<^verbatim>\<open>ut_internal_from_nanos\<close>.  Its 64-bit intermediate values are quotients and
  remainders of the argument by positive constants, corrected by one step, so none of
  them leaves the 64-bit range and the computation is written on \<open>sint nanos\<close>.
\<close>

definition ut_internal_from_nanos :: "int64_t \<Rightarrow> broken_down option" where
  "ut_internal_from_nanos ns =
     (let total_seconds = sint ns sdiv NANOS_PER_SECOND;
          remaining_nanos = sint ns smod NANOS_PER_SECOND;
          (remaining_nanos, total_seconds) =
             (if remaining_nanos < 0
              then (remaining_nanos + NANOS_PER_SECOND, total_seconds - 1)
              else (remaining_nanos, total_seconds));
          days = total_seconds sdiv SECONDS_PER_DAY;
          day_seconds = total_seconds smod SECONDS_PER_DAY;
          (day_seconds, days) =
             (if day_seconds < 0 then (day_seconds + SECONDS_PER_DAY, days - 1)
              else (day_seconds, days));
          (y, days) = (if days \<ge> 0 then year_walk_up 1970 days
                       else year_walk_down 1970 days)
      in case month_walk y 1 days of
           None \<Rightarrow> None
         | Some (m, days) \<Rightarrow>
             Some \<lparr> tm_year = y, tm_month = m, tm_day = days + 1,
                    tm_hour = day_seconds sdiv SECONDS_PER_HOUR,
                    tm_minute = (day_seconds smod SECONDS_PER_HOUR) sdiv SECONDS_PER_MINUTE,
                    tm_second = day_seconds smod SECONDS_PER_MINUTE,
                    tm_frac_nanos = remaining_nanos \<rparr>)"


section \<open>Formatter (ut_format.c)\<close>

definition UT_MAX_STRING_LEN :: nat where "UT_MAX_STRING_LEN = 32"

text \<open>
  The \<^verbatim>\<open>printf\<close> conversions the formatter uses.  \<open>dec_digits\<close> is the decimal numeral
  of a natural number; \<open>fmt_0d w\<close> is \<^verbatim>\<open>%0wd\<close>: the field width counts a minus sign, and
  a numeral longer than the width is printed in full.  \<open>c_str\<close> is \<^verbatim>\<open>%s\<close>, the characters
  of a buffer before its first NUL.  \<open>snprintf\<close> returns the length of the complete text
  and stores at most \<^verbatim>\<open>size - 1\<close> characters of it.
\<close>

function dec_digits :: "nat \<Rightarrow> string" where
  "dec_digits n =
     (if n < 10 then [char_of (48 + n)] else dec_digits (n div 10) @ [char_of (48 + n mod 10)])"
  by pat_completeness auto
termination
  by (relation "measure (\<lambda>n. n)") auto

definition fmt_0d :: "nat \<Rightarrow> int \<Rightarrow> string" where
  "fmt_0d w v =
     (if v < 0
      then CHR ''-'' # replicate (w - 1 - length (dec_digits (nat (- v)))) (CHR ''0'')
             @ dec_digits (nat (- v))
      else replicate (w - length (dec_digits (nat v))) (CHR ''0'') @ dec_digits (nat v))"

definition c_str :: "string \<Rightarrow> string" where
  "c_str buf = takeWhile (\<lambda>c. c \<noteq> CHR 0x00) buf"

definition snprintf :: "nat \<Rightarrow> string \<Rightarrow> int \<times> string" where
  "snprintf buf_size text = (int (length text), take (buf_size - 1) text)"

text \<open>
  The two loops over \<^verbatim>\<open>frac_buf\<close>:
  \<^verbatim>\<open>for (i = 8; i >= 0; i--) { frac_buf[i] = '0' + (frac_temp % 10); frac_temp /= 10; }\<close> and
  \<^verbatim>\<open>while (digits > 1 && frac_buf[digits - 1] == '0') digits--;\<close>.
\<close>

function frac_fill_loop :: "int \<Rightarrow> int \<Rightarrow> string \<Rightarrow> string" where
  "frac_fill_loop i frac_temp frac_buf =
     (if i \<ge> 0
      then frac_fill_loop (i - 1) (frac_temp sdiv 10)
             (frac_buf[nat i := char_of (48 + frac_temp smod 10)])
      else frac_buf)"
  by pat_completeness auto
termination
  by (relation "measure (\<lambda>(i, frac_temp, frac_buf). nat (i + 1))") auto

function strip_zeros_loop :: "nat \<Rightarrow> string \<Rightarrow> nat" where
  "strip_zeros_loop digits frac_buf =
     (if digits > 1 \<and> frac_buf ! (digits - 1) = CHR ''0''
      then strip_zeros_loop (digits - 1) frac_buf else digits)"
  by pat_completeness auto
termination
  by (relation "measure (\<lambda>(digits, frac_buf). digits)") auto

text \<open>
  \<^verbatim>\<open>ut_format\<close>.  The buffer pointer is \<open>None\<close> for \<^verbatim>\<open>NULL\<close> and \<open>Some s\<close> for a
  buffer holding the C string \<open>s\<close>; the result is the returned \<^verbatim>\<open>int\<close> with the buffer
  after the call, or \<open>None\<close> if the call does not return.  The local array
  \<^verbatim>\<open>char frac_buf[10]\<close> is uninitialised in the source; every cell is written before it is
  read, and the model starts it with NULs.
\<close>

definition ut_format ::
  "ut_timestamp_t \<Rightarrow> string option \<Rightarrow> nat \<Rightarrow> bool \<Rightarrow> (int \<times> string option) option" where
  "ut_format ts buf buf_size include_nanos =
     (if buf = None \<or> buf_size < UT_MAX_STRING_LEN then Some (- 1, buf)
      else case ut_internal_from_nanos (nanos ts) of
        None \<Rightarrow> None
      | Some bd \<Rightarrow>
          if include_nanos \<and> tm_frac_nanos bd > 0 then
            let frac_buf = frac_fill_loop 8 (tm_frac_nanos bd) (replicate 10 (CHR 0x00));
                frac_buf = frac_buf[9 := CHR 0x00];
                digits = strip_zeros_loop 9 frac_buf;
                frac_buf = frac_buf[digits := CHR 0x00];
                (len, written) = snprintf buf_size
                   (fmt_0d 4 (tm_year bd) @ ''-'' @ fmt_0d 2 (tm_month bd) @ ''-''
                    @ fmt_0d 2 (tm_day bd) @ ''T'' @ fmt_0d 2 (tm_hour bd) @ '':''
                    @ fmt_0d 2 (tm_minute bd) @ '':'' @ fmt_0d 2 (tm_second bd) @ ''.''
                    @ c_str frac_buf @ ''Z'')
            in Some (len, Some written)
          else
            let (len, written) = snprintf buf_size
                   (fmt_0d 4 (tm_year bd) @ ''-'' @ fmt_0d 2 (tm_month bd) @ ''-''
                    @ fmt_0d 2 (tm_day bd) @ ''T'' @ fmt_0d 2 (tm_hour bd) @ '':''
                    @ fmt_0d 2 (tm_minute bd) @ '':'' @ fmt_0d 2 (tm_second bd) @ ''Z'')
            in Some (len, Some written))"

section \<open>Parser (ut_parse.c, with the two parsing helpers of core/ut_core.c)\<close>

text \<open>
  A C string is the list of its characters before the terminating NUL, and \<^verbatim>\<open>strlen\<close> is
  \<open>length\<close>.  \<open>char_at\<close> is the read \<^verbatim>\<open>str[i]\<close>: the terminating NUL at index
  \<open>length str\<close>.  The parser reads no index beyond that one.  \<^verbatim>\<open>str + k\<close> is \<open>drop k str\<close>.
\<close>

definition char_at :: "string \<Rightarrow> nat \<Rightarrow> char" where
  "char_at str i = (if i < length str then str ! i else CHR 0x00)"

function parse_int_loop :: "string \<Rightarrow> nat \<Rightarrow> nat \<Rightarrow> int \<Rightarrow> int" where
  "parse_int_loop str n i val =
     (if i < n then
        (let c = char_at str i in
         if (of_char c :: nat) < of_char (CHR ''0'') \<or> (of_char c :: nat) > of_char (CHR ''9'')
         then - 1
         else parse_int_loop str n (i + 1) (val * 10 + (of_char c - of_char (CHR ''0''))))
      else val)"
  by pat_completeness auto
termination
  by (relation "measure (\<lambda>(str, n, i, val). n - i)") auto

definition ut_internal_parse_int :: "string \<Rightarrow> nat \<Rightarrow> int" where
  "ut_internal_parse_int str n = parse_int_loop str n 0 0"

text \<open>
  The loop of \<^verbatim>\<open>ut_internal_parse_fraction\<close>; \<open>None\<close> is its \<^verbatim>\<open>return -1\<close> from inside
  the loop.
\<close>

function parse_fraction_loop :: "string \<Rightarrow> int \<Rightarrow> int \<Rightarrow> int \<Rightarrow> int option" where
  "parse_fraction_loop str len i val =
     (if i < len then
        (let c = char_at str (nat i) in
         if (of_char c :: nat) < of_char (CHR ''0'') \<or> (of_char c :: nat) > of_char (CHR ''9'')
         then None
         else parse_fraction_loop str len (i + 1) (val * 10 + (of_char c - of_char (CHR ''0''))))
      else Some val)"
  by pat_completeness auto
termination
  by (relation "measure (\<lambda>(str, len, i, val). nat (len - i))") auto

definition multipliers :: "int list" where
  "multipliers = [100000000, 10000000, 1000000, 100000, 10000, 1000, 100, 10, 1]"

definition ut_internal_parse_fraction :: "string \<Rightarrow> int \<Rightarrow> int" where
  "ut_internal_parse_fraction str len =
     (if len < 1 \<or> len > 9 then - 1
      else case parse_fraction_loop str len 0 0 of
             None \<Rightarrow> - 1
           | Some val \<Rightarrow> val * multipliers ! nat (len - 1))"

text \<open>
  \<^verbatim>\<open>parse_timestamp\<close> in four parts, each \<open>Inl\<close> of the error code it returns early or
  \<open>Inr\<close> of the local variables it leaves to the rest: the fixed-width fields up to date
  validation, the fraction block, the designator block, and the whole function with the
  \<^verbatim>\<open>NULL\<close> checks, the end-of-input check and the single assignment to \<^verbatim>\<open>out->nanos\<close>.
  \<open>size_to_int\<close> is the cast \<^verbatim>\<open>(int)(pos - frac_start)\<close> of a \<^verbatim>\<open>size_t\<close> to the 32-bit
  \<^verbatim>\<open>int\<close>: the low 32 bits, read as two's complement.
\<close>

definition parse_fields :: "string \<Rightarrow> ut_error_t + (int \<times> int \<times> int \<times> int \<times> int \<times> int)" where
  "parse_fields str =
     (let len = length str in
      if len < 19 then Inl UT_ERR_INVALID_FORMAT
      else if char_at str 4 \<noteq> CHR ''-'' \<or> char_at str 7 \<noteq> CHR ''-'' \<or> char_at str 10 \<noteq> CHR ''T''
              \<or> char_at str 13 \<noteq> CHR '':'' \<or> char_at str 16 \<noteq> CHR '':''
      then Inl UT_ERR_INVALID_FORMAT
      else
        let year = ut_internal_parse_int str 4;
            month = ut_internal_parse_int (drop 5 str) 2;
            day = ut_internal_parse_int (drop 8 str) 2;
            hour = ut_internal_parse_int (drop 11 str) 2;
            minute = ut_internal_parse_int (drop 14 str) 2;
            second = ut_internal_parse_int (drop 17 str) 2
        in
        if year < 0 \<or> month < 0 \<or> day < 0 \<or> hour < 0 \<or> minute < 0 \<or> second < 0
        then Inl UT_ERR_INVALID_FORMAT
        else if hour > 23 \<or> minute > 59 \<or> second > 59 then Inl UT_ERR_OUT_OF_RANGE
        else if second = 60 then Inl UT_ERR_LEAP_SECOND
        else if \<not> ut_internal_validate_date year month day then Inl UT_ERR_INVALID_DATE
        else Inr (year, month, day, hour, minute, second))"

definition size_to_int :: "nat \<Rightarrow> int" where
  "size_to_int n = sint (word_of_nat n :: 32 word)"

function scan_digits :: "string \<Rightarrow> nat \<Rightarrow> nat" where
  "scan_digits str pos =
     (if pos < length str \<and> (of_char (char_at str pos) :: nat) \<ge> of_char (CHR ''0'')
           \<and> (of_char (char_at str pos) :: nat) \<le> of_char (CHR ''9'')
      then scan_digits str (pos + 1) else pos)"
  by pat_completeness auto
termination
  by (relation "measure (\<lambda>(str, pos). length str - pos)") auto

definition parse_fraction_block :: "string \<Rightarrow> bool \<Rightarrow> ut_error_t + (int \<times> nat)" where
  "parse_fraction_block str strict =
     (let len = length str; pos = 19 in
      if pos < len \<and> char_at str pos = CHR ''.'' then
        let pos = pos + 1;
            frac_start = pos;
            pos = scan_digits str pos;
            frac_len = size_to_int (pos - frac_start)
        in
        if frac_len = 0 then Inl UT_ERR_INVALID_FORMAT
        else if frac_len > 9 \<and> strict then Inl UT_ERR_FRACTION_TOO_LONG
        else
          let frac_len = (if frac_len > 9 then 9 else frac_len);
              frac_nanos = ut_internal_parse_fraction (drop frac_start str) frac_len
          in if frac_nanos < 0 then Inl UT_ERR_INVALID_FORMAT else Inr (frac_nanos, pos)
      else Inr (0, pos))"

definition parse_designator_block :: "string \<Rightarrow> nat \<Rightarrow> bool \<Rightarrow> ut_error_t + nat" where
  "parse_designator_block str pos strict =
     (let len = length str in
      if pos < len then
        let suffix = char_at str pos in
        if suffix = CHR ''Z'' then Inr (pos + 1)
        else if suffix = CHR ''z'' then
          (if strict then Inl UT_ERR_INVALID_FORMAT else Inr (pos + 1))
        else if suffix = CHR ''+'' \<or> suffix = CHR ''-'' then
          if len - pos < 6 then Inl UT_ERR_INVALID_FORMAT
          else if char_at str (pos + 3) \<noteq> CHR '':'' then Inl UT_ERR_INVALID_FORMAT
          else
            let off_hour = ut_internal_parse_int (drop (pos + 1) str) 2;
                off_min = ut_internal_parse_int (drop (pos + 4) str) 2
            in
            if off_hour < 0 \<or> off_min < 0 then Inl UT_ERR_INVALID_FORMAT
            else if off_hour \<noteq> 0 \<or> off_min \<noteq> 0 then Inl UT_ERR_UNSUPPORTED_OFFSET
            else if strict then Inl UT_ERR_UNSUPPORTED_OFFSET
            else Inr (pos + 6)
        else (if strict then Inl UT_ERR_INVALID_FORMAT else Inr pos)
      else (if strict then Inl UT_ERR_INVALID_FORMAT else Inr pos))"

text \<open>
  The pointer arguments are \<open>None\<close> for \<^verbatim>\<open>NULL\<close>; \<open>out = Some ts\<close> is a pointer to a
  timestamp currently holding \<open>ts\<close>.  The result is the returned code with the content of
  \<^verbatim>\<open>*out\<close> after the call.
\<close>

definition parse_timestamp ::
  "string option \<Rightarrow> ut_timestamp_t option \<Rightarrow> bool \<Rightarrow> ut_error_t \<times> ut_timestamp_t option" where
  "parse_timestamp str_ptr out strict =
     (case str_ptr of
        None \<Rightarrow> (UT_ERR_NULL_POINTER, out)
      | Some str \<Rightarrow>
          if out = None then (UT_ERR_NULL_POINTER, out)
          else case parse_fields str of
            Inl err \<Rightarrow> (err, out)
          | Inr (year, month, day, hour, minute, second) \<Rightarrow>
              (case parse_fraction_block str strict of
                 Inl err \<Rightarrow> (err, out)
               | Inr (frac_nanos, pos) \<Rightarrow>
                   (case parse_designator_block str pos strict of
                      Inl err \<Rightarrow> (err, out)
                    | Inr pos \<Rightarrow>
                        if pos \<noteq> length str then (UT_ERR_INVALID_FORMAT, out)
                        else (UT_OK,
                              Some \<lparr> nanos = ut_internal_to_nanos year month day hour minute
                                               second frac_nanos \<rparr>))))"

definition ut_parse_strict ::
  "string option \<Rightarrow> ut_timestamp_t option \<Rightarrow> ut_error_t \<times> ut_timestamp_t option" where
  "ut_parse_strict str out = parse_timestamp str out True"

definition ut_parse_lenient ::
  "string option \<Rightarrow> ut_timestamp_t option \<Rightarrow> ut_error_t \<times> ut_timestamp_t option" where
  "ut_parse_lenient str out = parse_timestamp str out False"


section \<open>Monotonic generator (ut_now.c)\<close>

text \<open>
  The generator's state is the process-wide \<^verbatim>\<open>g_last_monotonic\<close>, initially 0, and the
  callback pointer \<^verbatim>\<open>g_regression_callback\<close>, of which only whether it is set matters
  here.  A call of the callback is recorded as the triple of its arguments.  The wall
  clock \<^verbatim>\<open>ut_now()\<close> is an argument of the step.  Without concurrent callers the
  compare-and-swap of the retry loop fails only spuriously, leaving \<^verbatim>\<open>last\<close> as it was;
  the number of such failures before the exchange succeeds is an argument too
  (\<open>last_val\<close> is the local \<^verbatim>\<open>last\<close>).  The sum
  \<^verbatim>\<open>last + 1\<close> is 64-bit arithmetic and wraps.
\<close>

record generator_state =
  g_last_monotonic :: int64_t
  g_regression_callback :: bool

type_synonym regression_event = "ut_timestamp_t \<times> ut_timestamp_t \<times> ut_timestamp_t"

definition initial_state :: generator_state where
  "initial_state = \<lparr> g_last_monotonic = 0, g_regression_callback = False \<rparr>"

primrec cas_retry_loop ::
  "nat \<Rightarrow> bool \<Rightarrow> int64_t \<Rightarrow> int64_t \<Rightarrow> int64_t \<times> regression_event list" where
  "cas_retry_loop 0 callback current last_val =
     (if sint current \<le> sint last_val
      then (last_val + 1,
            if callback
            then [(\<lparr> nanos = last_val + 1 \<rparr>, \<lparr> nanos = current \<rparr>, \<lparr> nanos = last_val + 1 \<rparr>)]
            else [])
      else (current, []))"
| "cas_retry_loop (Suc failures) callback current last_val =
     (let events = (if sint current \<le> sint last_val \<and> callback
                    then [(\<lparr> nanos = last_val + 1 \<rparr>, \<lparr> nanos = current \<rparr>, \<lparr> nanos = last_val + 1 \<rparr>)]
                    else []);
          (new_val, later) = cas_retry_loop failures callback current last_val
      in (new_val, events @ later))"

definition ut_now_monotonic ::
  "int64_t \<Rightarrow> nat \<Rightarrow> generator_state
     \<Rightarrow> ut_timestamp_t \<times> regression_event list \<times> generator_state" where
  "ut_now_monotonic now failures st =
     (let (new_val, events) =
            cas_retry_loop failures (g_regression_callback st) now (g_last_monotonic st)
      in (\<lparr> nanos = new_val \<rparr>, events, st \<lparr> g_last_monotonic := new_val \<rparr>))"

definition ut_set_regression_callback :: "bool \<Rightarrow> generator_state \<Rightarrow> generator_state" where
  "ut_set_regression_callback callback st = st \<lparr> g_regression_callback := callback \<rparr>"

text \<open>
  Successive calls: each element of the list is one call's clock reading and number of
  spurious exchange failures; the result is the list of returned values and the final
  state.
\<close>

fun generate_all ::
  "generator_state \<Rightarrow> (int64_t \<times> nat) list \<Rightarrow> int64_t list \<times> generator_state" where
  "generate_all st [] = ([], st)"
| "generate_all st ((now, failures) # calls) =
     (case ut_now_monotonic now failures st of
        (ts, events, st') \<Rightarrow>
          (case generate_all st' calls of (results, st'') \<Rightarrow> (nanos ts # results, st'')))"

section \<open>ISO week date (ut_calendar.c)\<close>

definition day_of_week_from_nanos :: "int64_t \<Rightarrow> int" where
  "day_of_week_from_nanos ns =
     (let days = sint ns sdiv (86400 * 1000000000);
          dow = (days + 3) smod 7;
          dow = (if dow < 0 then dow + 7 else dow)
      in dow)"

function day_of_year_loop :: "int \<Rightarrow> int \<Rightarrow> int \<Rightarrow> int \<Rightarrow> int" where
  "day_of_year_loop y i m day_of_year =
     (if i < m then day_of_year_loop y (i + 1) m (day_of_year + ut_internal_days_in_month y i)
      else day_of_year)"
  by pat_completeness auto
termination
  by (relation "measure (\<lambda>(y, i, m, day_of_year). nat (m - i))") auto

text \<open>
  \<^verbatim>\<open>ut_to_iso_week\<close>.  Each of the three output pointers is \<open>None\<close> for \<^verbatim>\<open>NULL\<close> or
  \<open>Some v\<close> for a cell holding \<open>v\<close>; the result is the three cells after the call, or
  \<open>None\<close> if the call does not return.
\<close>

definition ut_to_iso_week ::
  "ut_timestamp_t \<Rightarrow> int option \<Rightarrow> int option \<Rightarrow> int option
     \<Rightarrow> (int option \<times> int option \<times> int option) option" where
  "ut_to_iso_week ts year week day =
     (if year = None \<or> week = None \<or> day = None then Some (year, week, day)
      else case ut_internal_from_nanos (nanos ts) of
        None \<Rightarrow> None
      | Some bd \<Rightarrow>
          let y = tm_year bd; m = tm_month bd; d = tm_day bd;
              dow = day_of_week_from_nanos (nanos ts);
              day_out = dow + 1;
              day_of_year = day_of_year_loop y 1 m 0;
              day_of_year = day_of_year + d;
              thursday_doy = day_of_year + (3 - dow);
              (iso_year, thursday_doy) =
                 (if thursday_doy < 1
                  then (y - 1, thursday_doy + (if ut_internal_is_leap_year (y - 1) then 366 else 365))
                  else
                    let this_year_days = (if ut_internal_is_leap_year y then 366 else 365)
                    in if thursday_doy > this_year_days
                       then (y + 1, thursday_doy - this_year_days)
                       else (y, thursday_doy))
          in Some (Some iso_year, Some ((thursday_doy + 6) sdiv 7), Some day_out))"

text \<open>
  The day of the week of a calendar date as the specification words it: Monday = 1 to
  Sunday = 7, from the date's epoch day count and the fixed reference offset 3
  (1970-01-01 was a Thursday).  This is the reference the weekday returned by
  \<open>ut_to_iso_week\<close> is compared with; \<open>mod\<close> is the mathematical remainder.
\<close>

definition spec_weekday_of_date :: "int \<Rightarrow> int \<Rightarrow> int \<Rightarrow> int" where
  "spec_weekday_of_date y m d = (days_from_epoch y m d + 3) mod 7 + 1"

section \<open>Notions used in the proofs\<close>

text \<open>
  The epoch day count of January 1st of a year and the number of days of a year before
  the first of a month, both as \<^verbatim>\<open>days_from_epoch\<close> computes them.
\<close>

definition year_start :: "int \<Rightarrow> int" where
  "year_start y = days_from_epoch y 1 1"

definition month_start :: "int \<Rightarrow> int \<Rightarrow> int" where
  "month_start y m = months_loop y 1 m 0"

text \<open>
  Decimal digits: the test the parsing loops apply to a character, the value the loops
  accumulate over a string of digits, and the numeral of a number in exactly \<open>w\<close> digits,
  which is what \<^verbatim>\<open>%0wd\<close> prints for a number that fits.
\<close>

definition is_digit_char :: "char \<Rightarrow> bool" where
  "is_digit_char c \<longleftrightarrow>
     (of_char (CHR ''0'') :: nat) \<le> of_char c \<and> (of_char c :: nat) \<le> of_char (CHR ''9'')"

definition digits_value :: "string \<Rightarrow> int" where
  "digits_value ds = foldl (\<lambda>v c. v * 10 + (of_char c - of_char (CHR ''0''))) 0 ds"

primrec pad_digits :: "nat \<Rightarrow> nat \<Rightarrow> string" where
  "pad_digits 0 n = []"
| "pad_digits (Suc w) n = pad_digits w (n div 10) @ [char_of (48 + n mod 10)]"

text \<open>
  The text the formatter produces, put together from a broken-down time: the 19
  fixed-width characters (\<open>canonical_head\<close>), the nine fraction digits without their
  trailing zeros (\<open>fraction_text\<close>) and the whole text (\<open>canonical_text\<close>).
  \<open>normalized\<close> are the components \<open>ut_internal_from_nanos\<close> produces: a valid date, a
  time of day and a fraction below one second.
\<close>

definition canonical_head :: "broken_down \<Rightarrow> string" where
  "canonical_head bd =
     pad_digits 4 (nat (tm_year bd)) @ ''-'' @ pad_digits 2 (nat (tm_month bd)) @ ''-''
     @ pad_digits 2 (nat (tm_day bd)) @ ''T'' @ pad_digits 2 (nat (tm_hour bd)) @ '':''
     @ pad_digits 2 (nat (tm_minute bd)) @ '':'' @ pad_digits 2 (nat (tm_second bd))"

definition fraction_text :: "int \<Rightarrow> string" where
  "fraction_text f =
     take (strip_zeros_loop 9 (pad_digits 9 (nat f) @ [CHR 0x00])) (pad_digits 9 (nat f))"

definition normalized :: "broken_down \<Rightarrow> bool" where
  "normalized bd \<longleftrightarrow>
     ut_internal_validate_date (tm_year bd) (tm_month bd) (tm_day bd)
     \<and> 0 \<le> tm_hour bd \<and> tm_hour bd \<le> 23 \<and> 0 \<le> tm_minute bd \<and> tm_minute bd \<le> 59
     \<and> 0 \<le> tm_second bd \<and> tm_second bd \<le> 59
     \<and> 0 \<le> tm_frac_nanos bd \<and> tm_frac_nanos bd \<le> 999999999"

definition canonical_text :: "broken_down \<Rightarrow> bool \<Rightarrow> string" where
  "canonical_text bd include_nanos =
     canonical_head bd
     @ (if include_nanos \<and> tm_frac_nanos bd > 0
        then CHR ''.'' # fraction_text (tm_frac_nanos bd) else [])
     @ ''Z''"

text \<open>
  The part of an input before the designator position.  \<open>fraction_part\<close>: no fraction,
  or a dot and at least one digit, fewer than \<open>2 ^ 31\<close> digits (so that their count
  survives the cast to \<^verbatim>\<open>int\<close>) and at most nine of them in strict mode.
  \<open>accepted_prefix\<close>: the 19 mandatory characters pass every check of \<open>parse_fields\<close>
  and a fraction part follows.  \<open>fraction_value\<close> and \<open>prefix_nanos\<close>: the nanoseconds of
  the fraction (of its first nine digits, padded on the right to nine) and the instant
  of the prefix read as UTC.  \<open>ends_prefix p sfx\<close>: the prefix stops where \<open>sfx\<close> begins,
  that is, \<open>sfx\<close> does not start with a dot after a prefix without fraction, nor with a
  digit after a fraction.  \<open>other_designator p c\<close>: \<open>c\<close> stands at the designator position
  after \<open>p\<close> and is none of \<^verbatim>\<open>Z z + -\<close>.
\<close>

definition fraction_part :: "bool \<Rightarrow> string \<Rightarrow> bool" where
  "fraction_part strict fr \<longleftrightarrow>
     fr = [] \<or> (hd fr = CHR ''.'' \<and> tl fr \<noteq> [] \<and> list_all is_digit_char (tl fr)
                \<and> length (tl fr) < 2 ^ 31 \<and> (strict \<longrightarrow> length (tl fr) \<le> 9))"

definition fraction_value :: "string \<Rightarrow> int" where
  "fraction_value fr =
     (if fr = [] then 0
      else digits_value (take 9 (tl fr)) * 10 ^ (9 - min 9 (length (tl fr))))"

definition accepted_prefix :: "bool \<Rightarrow> string \<Rightarrow> bool" where
  "accepted_prefix strict p \<longleftrightarrow>
     19 \<le> length p
     \<and> (case parse_fields (take 19 p) of Inl err \<Rightarrow> False | Inr accepted \<Rightarrow> True)
     \<and> fraction_part strict (drop 19 p)"

definition prefix_nanos :: "string \<Rightarrow> int64_t" where
  "prefix_nanos p =
     (case parse_fields (take 19 p) of
        Inl err \<Rightarrow> 0
      | Inr (year, month, day, hour, minute, second) \<Rightarrow>
          ut_internal_to_nanos year month day hour minute second (fraction_value (drop 19 p)))"

definition ends_prefix :: "string \<Rightarrow> string \<Rightarrow> bool" where
  "ends_prefix p sfx \<longleftrightarrow>
     sfx = [] \<or> (if drop 19 p = [] then hd sfx \<noteq> CHR ''.'' else \<not> is_digit_char (hd sfx))"

definition other_designator :: "string \<Rightarrow> char \<Rightarrow> bool" where
  "other_designator p c \<longleftrightarrow>
     c \<noteq> CHR ''Z'' \<and> c \<noteq> CHR ''z'' \<and> c \<noteq> CHR ''+'' \<and> c \<noteq> CHR ''-'' \<and> ends_prefix p [c]"

section \<open>Calendar arithmetic: the conversions are inverse\<close>

text \<open>
  The loop equations are unconditional and would unfold without end; they are applied by
  hand where a proof needs one step of a loop.
\<close>

declare years_up_loop.simps [simp del] years_down_loop.simps [simp del] months_loop.simps [simp del]
  year_walk_up.simps [simp del] year_walk_down.simps [simp del]
  parse_int_loop.simps [simp del] parse_fraction_loop.simps [simp del] scan_digits.simps [simp del]
  dec_digits.simps [simp del] frac_fill_loop.simps [simp del] strip_zeros_loop.simps [simp del]
  day_of_year_loop.simps [simp del]

subsection \<open>Truncating and flooring division\<close>

lemma nonneg_sdiv: "0 \<le> (a::int) \<Longrightarrow> 0 < b \<Longrightarrow> a sdiv b = a div b"
  by (auto simp add: signed_divide_int_def sgn_if)

lemma nonneg_smod: "0 \<le> (a::int) \<Longrightarrow> 0 < b \<Longrightarrow> a smod b = a mod b"
  by (auto simp add: signed_modulo_int_def sgn_if)

lemma smod_zero_iff:
  fixes a b :: int
  assumes "0 < b" shows "a smod b = 0 \<longleftrightarrow> a mod b = 0"
proof (cases "0 \<le> a")
  case True
  with assms show ?thesis by (simp add: nonneg_smod)
next
  case False
  define c where "c = - a"
  have c: "0 < c" "a = - c" using False by (simp_all add: c_def)
  define r where "r = c mod b"
  have "0 \<le> r" "r < b" using assms by (simp_all add: r_def)
  then show ?thesis using assms c
    by (auto simp add: nonneg_smod zmod_zminus1_eq_if r_def [symmetric])
qed

lemma floor_fix:
  fixes a b :: int
  assumes "0 < b"
  shows "(if a smod b < 0 then (a smod b + b, a sdiv b - 1) else (a smod b, a sdiv b)) = (a mod b, a div b)"
proof (cases "0 \<le> a")
  case True
  with assms show ?thesis
    by (simp add: nonneg_sdiv nonneg_smod not_less)
next
  case False
  define c where "c = - a"
  have c: "0 < c" "a = - c" using False by (simp_all add: c_def)
  define r where "r = c mod b"
  have "0 \<le> r" "r < b" using assms by (simp_all add: r_def)
  then show ?thesis using assms c
    by (auto simp add: nonneg_smod nonneg_sdiv zmod_zminus1_eq_if zdiv_zminus1_eq_if r_def [symmetric])
qed





lemma days_in_year_bounds: "365 \<le> days_in_year y" "days_in_year y \<le> 366"
  by (simp_all add: days_in_year_def)

lemma years_up_loop_shift: "years_up_loop y year (a + b) = a + years_up_loop y year b"
proof (induction y year b arbitrary: a rule: years_up_loop.induct)
  case (1 y year days)
  show ?case
  proof (cases "y < year")
    case True
    have "years_up_loop y year (a + days) = years_up_loop (y + 1) year (a + (days + days_in_year y))"
      using True by (subst years_up_loop.simps) (simp add: add.assoc)
    also have "\<dots> = a + years_up_loop (y + 1) year (days + days_in_year y)"
      by (rule "1.IH" [OF True])
    also have "\<dots> = a + years_up_loop y year days"
      using True by (subst (2) years_up_loop.simps) simp
    finally show ?thesis .
  next
    case False
    then show ?thesis by (simp add: years_up_loop.simps)
  qed
qed

lemma years_up_loop_snoc:
  "y \<le> year \<Longrightarrow> years_up_loop y (year + 1) d = years_up_loop y year d + days_in_year year"
proof (induction y year d rule: years_up_loop.induct)
  case (1 y year days)
  show ?case
  proof (cases "y < year")
    case True
    have "years_up_loop y (year + 1) days = years_up_loop (y + 1) (year + 1) (days + days_in_year y)"
      using True by (subst years_up_loop.simps) simp
    also have "\<dots> = years_up_loop (y + 1) year (days + days_in_year y) + days_in_year year"
      using True by (intro "1.IH") simp_all
    also have "\<dots> = years_up_loop y year days + days_in_year year"
      using True by (subst (2) years_up_loop.simps) simp
    finally show ?thesis .
  next
    case False
    with "1.prems" have "y = year" by simp
    then show ?thesis
      by (simp add: years_up_loop.simps [of year "year + 1"] years_up_loop.simps [of "year + 1" "year + 1"]
            years_up_loop.simps [of year year])
  qed
qed

lemma years_down_loop_shift: "years_down_loop y (a + b) = a + years_down_loop y b"
proof (induction y b arbitrary: a rule: years_down_loop.induct)
  case (1 y days)
  show ?case
  proof (cases "y < 1970")
    case True
    have "years_down_loop y (a + days) = years_down_loop (y + 1) (a + (days - days_in_year y))"
      using True by (subst years_down_loop.simps) (simp add: algebra_simps)
    also have "\<dots> = a + years_down_loop (y + 1) (days - days_in_year y)"
      by (rule "1.IH" [OF True])
    also have "\<dots> = a + years_down_loop y days"
      using True by (subst (2) years_down_loop.simps) simp
    finally show ?thesis .
  next
    case False
    then show ?thesis by (simp add: years_down_loop.simps)
  qed
qed

lemma months_loop_shift: "months_loop y m month (a + b) = a + months_loop y m month b"
proof (induction y m month b arbitrary: a rule: months_loop.induct)
  case (1 year m month days)
  show ?case
  proof (cases "m < month")
    case True
    have "months_loop year m month (a + days)
            = months_loop year (m + 1) month (a + (days + ut_internal_days_in_month year m))"
      using True by (subst months_loop.simps) (simp add: add.assoc)
    also have "\<dots> = a + months_loop year (m + 1) month (days + ut_internal_days_in_month year m)"
      by (rule "1.IH" [OF True])
    also have "\<dots> = a + months_loop year m month days"
      using True by (subst (2) months_loop.simps) simp
    finally show ?thesis .
  next
    case False
    then show ?thesis by (simp add: months_loop.simps)
  qed
qed

lemma months_loop_snoc:
  "m \<le> month \<Longrightarrow>
   months_loop y m (month + 1) d = months_loop y m month d + ut_internal_days_in_month y month"
proof (induction y m month d rule: months_loop.induct)
  case (1 year m month days)
  show ?case
  proof (cases "m < month")
    case True
    have "months_loop year m (month + 1) days
            = months_loop year (m + 1) (month + 1) (days + ut_internal_days_in_month year m)"
      using True by (subst months_loop.simps) simp
    also have "\<dots> = months_loop year (m + 1) month (days + ut_internal_days_in_month year m)
                      + ut_internal_days_in_month year month"
      using True by (intro "1.IH") simp_all
    also have "\<dots> = months_loop year m month days + ut_internal_days_in_month year month"
      using True by (subst (2) months_loop.simps) simp
    finally show ?thesis .
  next
    case False
    with "1.prems" have "m = month" by simp
    then show ?thesis
      by (simp add: months_loop.simps [of year month "month + 1"]
            months_loop.simps [of year "month + 1" "month + 1"] months_loop.simps [of year month month])
  qed
qed

lemma days_from_epoch_split:
  "days_from_epoch y m d = year_start y + month_start y m + (d - 1)"
proof -
  have m11: "months_loop y 1 1 c = c" for c
    by (simp add: months_loop.simps)
  have sh: "months_loop y 1 m c = c + months_loop y 1 m 0" for c
    using months_loop_shift [of y 1 m c 0] by simp
  show ?thesis
    unfolding days_from_epoch_def year_start_def month_start_def Let_def m11
    by (subst sh) simp
qed

lemma year_start_1970: "year_start 1970 = 0"
  by (simp add: year_start_def days_from_epoch_def years_up_loop.simps months_loop.simps)

lemma year_start_eq:
  "year_start y = (if y \<ge> 1970 then years_up_loop 1970 y 0 else years_down_loop y 0)"
  by (simp add: year_start_def days_from_epoch_def months_loop.simps)

lemma year_start_step: "year_start (y + 1) = year_start y + days_in_year y"
proof -
  consider "1970 \<le> y" | "y = 1969" | "y < 1969" by linarith
  then show ?thesis
  proof cases
    case 1
    then show ?thesis by (simp add: year_start_eq years_up_loop_snoc)
  next
    case 2
    have "years_down_loop 1969 0 = - days_in_year 1969"
      by (simp add: years_down_loop.simps [of 1969] years_down_loop.simps [of 1970])
    with 2 show ?thesis
      by (simp add: year_start_eq years_up_loop.simps [of 1970 1970])
  next
    case 3
    have "years_down_loop y 0 = years_down_loop (y + 1) (- days_in_year y + 0)"
      using 3 by (subst years_down_loop.simps) simp
    also have "\<dots> = - days_in_year y + years_down_loop (y + 1) 0"
      by (rule years_down_loop_shift)
    finally show ?thesis using 3 by (simp add: year_start_eq)
  qed
qed

lemma year_start_pred: "year_start (y - 1) = year_start y - days_in_year (y - 1)"
  using year_start_step [of "y - 1"] by simp

lemma year_walk_up_correct:
  "0 \<le> days \<Longrightarrow> year_walk_up y days = (y', r) \<Longrightarrow>
   y \<le> y' \<and> 0 \<le> r \<and> r < days_in_year y' \<and> year_start y' + r = year_start y + days"
proof (induction y days rule: year_walk_up.induct)
  case (1 y days)
  show ?case
  proof (cases "days < days_in_year y")
    case True
    with "1.prems" show ?thesis by (simp add: year_walk_up.simps [of y days])
  next
    case False
    have nn: "0 \<le> days - days_in_year y" using False by simp
    have "year_walk_up (y + 1) (days - days_in_year y) = (y', r)"
      using False "1.prems"(2) by (simp add: year_walk_up.simps [of y days])
    from "1.IH" [OF False nn this] show ?thesis
      by (simp add: year_start_step)
  qed
qed

lemma year_walk_down_correct:
  "days < 0 \<Longrightarrow> year_walk_down y days = (y', r) \<Longrightarrow>
   y' < y \<and> 0 \<le> r \<and> r < days_in_year y' \<and> year_start y' + r = year_start y + days"
proof (induction y days rule: year_walk_down.induct)
  case (1 y days)
  have step: "year_walk_down (y - 1) (days + days_in_year (y - 1)) = (y', r)"
    using "1.prems" by (simp add: year_walk_down.simps [of y days])
  show ?case
  proof (cases "days + days_in_year (y - 1) < 0")
    case True
    from "1.IH" [OF "1.prems"(1) True step] show ?thesis
      by (simp add: year_start_pred)
  next
    case False
    then have "year_walk_down (y - 1) (days + days_in_year (y - 1))
                 = (y - 1, days + days_in_year (y - 1))"
      by (subst year_walk_down.simps) simp
    with step have "(y - 1, days + days_in_year (y - 1)) = (y', r)"
      by (simp only:)
    then have "y' = y - 1" and "r = days + days_in_year (y - 1)"
      by blast+
    with False "1.prems"(1) show ?thesis
      by (simp add: year_start_pred)
  qed
qed

lemma month_start_1: "month_start y 1 = 0"
  by (simp add: month_start_def months_loop.simps)

lemma month_start_step: "1 \<le> m \<Longrightarrow> month_start y (m + 1) = month_start y m + ut_internal_days_in_month y m"
  by (simp add: month_start_def months_loop_snoc)

lemma month_start_13: "month_start y 13 = days_in_year y"
  by (simp add: month_start_def months_loop.simps ut_internal_days_in_month_def DAYS_IN_MONTH_def
        days_in_year_def)

lemma days_in_month_pos: "1 \<le> m \<Longrightarrow> m \<le> 12 \<Longrightarrow> 28 \<le> ut_internal_days_in_month y m"
proof -
  assume "1 \<le> m" "m \<le> 12"
  then have "m = 1 \<or> m = 2 \<or> m = 3 \<or> m = 4 \<or> m = 5 \<or> m = 6 \<or> m = 7 \<or> m = 8 \<or> m = 9
      \<or> m = 10 \<or> m = 11 \<or> m = 12" by arith
  then show ?thesis
    by (auto simp: ut_internal_days_in_month_def DAYS_IN_MONTH_def)
qed

lemma month_walk_correct:
  "n = nat (12 - m) \<Longrightarrow> 1 \<le> m \<Longrightarrow> m \<le> 12 \<Longrightarrow> 0 \<le> days \<Longrightarrow>
   month_start y m + days < days_in_year y \<Longrightarrow>
   \<exists>m' r. month_walk y m days = Some (m', r) \<and> m \<le> m' \<and> m' \<le> 12 \<and> 0 \<le> r
      \<and> r < ut_internal_days_in_month y m' \<and> month_start y m' + r = month_start y m + days"
proof (induction n arbitrary: m days)
  case 0
  then have m: "m = 12" by simp
  have "month_start y 12 + ut_internal_days_in_month y 12 = days_in_year y"
    using month_start_step [of 12 y] by (simp add: month_start_13)
  with 0 m have "days < ut_internal_days_in_month y 12" by simp
  with 0 m show ?case
    by (subst month_walk.simps) simp
next
  case (Suc n)
  then have m: "m < 12" by simp
  show ?case
  proof (cases "days < ut_internal_days_in_month y m")
    case True
    with Suc.prems show ?thesis by (subst month_walk.simps) simp
  next
    case False
    let ?d = "days - ut_internal_days_in_month y m"
    have "\<exists>m' r. month_walk y (m + 1) ?d = Some (m', r) \<and> m + 1 \<le> m' \<and> m' \<le> 12 \<and> 0 \<le> r
      \<and> r < ut_internal_days_in_month y m' \<and> month_start y m' + r = month_start y (m + 1) + ?d"
      using Suc.prems False m by (intro Suc.IH) (simp_all add: month_start_step)
    then obtain m' r where *: "month_walk y (m + 1) ?d = Some (m', r)" "m + 1 \<le> m'" "m' \<le> 12" "0 \<le> r"
      "r < ut_internal_days_in_month y m'" "month_start y m' + r = month_start y (m + 1) + ?d"
      by blast
    have "month_walk y m days = Some (m', r)"
      using False * by (subst month_walk.simps) simp
    with * Suc.prems show ?thesis by (simp add: month_start_step)
  qed
qed

lemmas floor_fix_ns = floor_fix [of 1000000000, simplified]

lemmas floor_fix_day = floor_fix [of 86400, simplified]

lemma from_nanos_alt:
  "ut_internal_from_nanos ns =
     (case (if 0 \<le> sint ns div 1000000000 div 86400
            then year_walk_up 1970 (sint ns div 1000000000 div 86400)
            else year_walk_down 1970 (sint ns div 1000000000 div 86400)) of
        (y, r) \<Rightarrow>
          (case month_walk y 1 r of
             None \<Rightarrow> None
           | Some (m, d) \<Rightarrow>
               Some \<lparr> tm_year = y, tm_month = m, tm_day = d + 1,
                      tm_hour = sint ns div 1000000000 mod 86400 div 3600,
                      tm_minute = sint ns div 1000000000 mod 86400 mod 3600 div 60,
                      tm_second = sint ns div 1000000000 mod 86400 mod 60,
                      tm_frac_nanos = sint ns mod 1000000000 \<rparr>))"
proof -
  have a: "0 \<le> sint ns div 1000000000 mod 86400" by simp
  have b: "0 \<le> sint ns div 1000000000 mod 86400 mod 3600" by simp
  show ?thesis
    unfolding ut_internal_from_nanos_def Let_def NANOS_PER_SECOND_def SECONDS_PER_DAY_def
      SECONDS_PER_HOUR_def SECONDS_PER_MINUTE_def floor_fix_ns prod.case floor_fix_day
    by (simp only: nonneg_sdiv [OF a] nonneg_smod [OF a] nonneg_sdiv [OF b])
qed


lemma year_start_mono_aux: "year_start y \<le> year_start (y + int k)"
proof (induction k)
  case 0 show ?case by simp
next
  case (Suc k)
  have "year_start (y + int (Suc k)) = year_start (y + int k) + days_in_year (y + int k)"
    using year_start_step [of "y + int k"] by (simp add: algebra_simps)
  with Suc days_in_year_bounds(1) [of "y + int k"] show ?case by linarith
qed

lemma year_start_mono: "a \<le> b \<Longrightarrow> year_start a \<le> year_start b"
  using year_start_mono_aux [of a "nat (b - a)"] by simp

lemma year_start_1677: "year_start 1677 = -107015"
  by (simp add: year_start_eq years_down_loop.simps days_in_year_def ut_internal_is_leap_year_def)

lemma year_start_2263: "year_start 2263 = 107016"
  by (simp add: year_start_eq years_up_loop.simps days_in_year_def ut_internal_is_leap_year_def)


lemma sint64_div_bounds:
  fixes ns :: "64 word"
  shows "- 106752 \<le> sint ns div 1000000000 div 86400" "sint ns div 1000000000 div 86400 \<le> 106751"
proof -
  have "- (2 ^ 63) \<le> sint ns" "sint ns < 2 ^ 63"
    using sint_ge [of ns] sint_lt [of ns] by simp_all
  then show "- 106752 \<le> sint ns div 1000000000 div 86400" "sint ns div 1000000000 div 86400 \<le> 106751"
    by (simp_all add: div_mult2_eq [symmetric])
qed

lemma to_nanos_int:
  "ut_internal_to_nanos y m d h mi s f =
     word_of_int ((days_from_epoch y m d * 86400 + h * 3600 + mi * 60 + s) * 1000000000 + f)"
  by (simp add: ut_internal_to_nanos_def Let_def NANOS_PER_SECOND_def SECONDS_PER_DAY_def
        SECONDS_PER_HOUR_def SECONDS_PER_MINUTE_def)

lemma from_nanos_date:
  fixes ns :: "64 word"
  defines "days \<equiv> sint ns div 1000000000 div 86400"
  shows "\<exists>y m d. ut_internal_from_nanos ns =
            Some \<lparr> tm_year = y, tm_month = m, tm_day = d,
                   tm_hour = sint ns div 1000000000 mod 86400 div 3600,
                   tm_minute = sint ns div 1000000000 mod 86400 mod 3600 div 60,
                   tm_second = sint ns div 1000000000 mod 86400 mod 60,
                   tm_frac_nanos = sint ns mod 1000000000 \<rparr>
          \<and> 1677 \<le> y \<and> y \<le> 2262 \<and> 1 \<le> m \<and> m \<le> 12 \<and> 1 \<le> d
          \<and> d \<le> ut_internal_days_in_month y m \<and> days_from_epoch y m d = days"
proof -
  obtain y r where yr: "(if 0 \<le> days then year_walk_up 1970 days else year_walk_down 1970 days) = (y, r)"
    by (cases "if 0 \<le> days then year_walk_up 1970 days else year_walk_down 1970 days") simp
  have walk: "0 \<le> r \<and> r < days_in_year y \<and> year_start y + r = days"
  proof (cases "0 \<le> days")
    case True
    with yr have "year_walk_up 1970 days = (y, r)" by simp
    from year_walk_up_correct [OF True this] show ?thesis by (simp add: year_start_1970)
  next
    case False
    with yr have "year_walk_down 1970 days = (y, r)" by simp
    from year_walk_down_correct [OF _ this] False show ?thesis by (simp add: year_start_1970)
  qed
  have lo: "- 106752 \<le> days" and hi: "days \<le> 106751"
    using sint64_div_bounds [of ns] by (simp_all add: days_def)
  have y_lo: "1677 \<le> y"
  proof (rule ccontr)
    assume "\<not> 1677 \<le> y"
    then have "y + 1 \<le> 1677" by simp
    then have "year_start (y + 1) \<le> - 107015"
      using year_start_mono [of "y + 1" 1677] by (simp add: year_start_1677)
    with walk lo show False by (simp add: year_start_step)
  qed
  have y_hi: "y \<le> 2262"
  proof (rule ccontr)
    assume "\<not> y \<le> 2262"
    then have "2263 \<le> y" by simp
    then have "107016 \<le> year_start y"
      using year_start_mono [of 2263 y] by (simp add: year_start_2263)
    with walk hi show False by simp
  qed
  have "\<exists>m' r'. month_walk y 1 r = Some (m', r') \<and> 1 \<le> m' \<and> m' \<le> 12 \<and> 0 \<le> r'
      \<and> r' < ut_internal_days_in_month y m' \<and> month_start y m' + r' = month_start y 1 + r"
    using walk by (intro month_walk_correct [of 11]) (simp_all add: month_start_1)
  then obtain m d where md: "month_walk y 1 r = Some (m, d)" "1 \<le> m" "m \<le> 12" "0 \<le> d"
      "d < ut_internal_days_in_month y m" "month_start y m + d = r"
    by (auto simp: month_start_1)
  have "days_from_epoch y m (d + 1) = days"
    using md(6) walk by (simp add: days_from_epoch_split)
  with md y_lo y_hi show ?thesis
    unfolding from_nanos_alt days_def [symmetric] yr by simp
qed

lemma to_nanos_of_fields:
  fixes n :: "64 word"
  defines "S \<equiv> sint n div 1000000000 mod 86400"
  assumes days: "days_from_epoch y m d = sint n div 1000000000 div 86400"
  shows "ut_internal_to_nanos y m d (S div 3600) (S mod 3600 div 60) (S mod 60)
           (sint n mod 1000000000) = n"
proof -
  define T where "T = sint n div 1000000000"
  have S: "S = T mod 86400" by (simp add: S_def T_def)
  have "S mod 3600 mod 60 = S mod 60"
    by (rule mod_mod_cancel) simp
  moreover have "S mod 3600 div 60 * 60 + S mod 3600 mod 60 = S mod 3600"
    by (rule div_mult_mod_eq)
  moreover have "S div 3600 * 3600 + S mod 3600 = S"
    by (rule div_mult_mod_eq)
  ultimately have hms: "S div 3600 * 3600 + S mod 3600 div 60 * 60 + S mod 60 = S"
    by linarith
  have "T div 86400 * 86400 + S = T"
    unfolding S by (rule div_mult_mod_eq)
  with hms have "T div 86400 * 86400 + S div 3600 * 3600 + S mod 3600 div 60 * 60 + S mod 60 = T"
    by linarith
  then have "(T div 86400 * 86400 + S div 3600 * 3600 + S mod 3600 div 60 * 60 + S mod 60) * 1000000000
          + sint n mod 1000000000 = sint n"
    unfolding T_def by (simp only: div_mult_mod_eq)
  then show ?thesis
    unfolding to_nanos_int days T_def [symmetric] by (simp only: of_int_sint scast_id)
qed

lemma time_of_day_ranges:
  fixes S :: int
  assumes "0 \<le> S" "S < 86400"
  shows "0 \<le> S div 3600" "S div 3600 \<le> 23" "0 \<le> S mod 3600 div 60" "S mod 3600 div 60 \<le> 59"
    "0 \<le> S mod 60" "S mod 60 \<le> 59"
proof -
  show "0 \<le> S div 3600" "S div 3600 \<le> 23"
    using assms by (simp_all add: pos_imp_zdiv_nonneg_iff)
  show "0 \<le> S mod 3600 div 60" "S mod 3600 div 60 \<le> 59"
    by (simp_all add: pos_imp_zdiv_nonneg_iff)
  show "0 \<le> S mod 60" by simp
  show "S mod 60 \<le> 59"
    using pos_mod_bound [of 60 S] by simp
qed

lemma frac_range:
  fixes a :: int
  shows "0 \<le> a mod 1000000000" "a mod 1000000000 \<le> 999999999"
proof -
  show "0 \<le> a mod 1000000000" by simp
  show "a mod 1000000000 \<le> 999999999"
    using pos_mod_bound [of 1000000000 a] by simp
qed

text \<open>
  Claim C7.  For every 64-bit instant \<open>n\<close>, \<open>ut_internal_from_nanos\<close> returns, with
  fractional nanoseconds in 0..999999999, hour in 0..23, minute and second in 0..59, month
  in 1..12 and day in 1..days_in_month(year, month), and \<open>ut_internal_to_nanos\<close> of the
  returned components is \<open>n\<close> again.  For the instants below -9223372036000000000 the
  product \<^verbatim>\<open>seconds * NANOS_PER_SECOND\<close> inside \<open>ut_internal_to_nanos\<close> leaves the
  64-bit range and the following addition brings it back: the equation holds in
  wrapping 64-bit arithmetic.
\<close>

theorem from_nanos_inverse:
  "\<exists>bd. ut_internal_from_nanos n = Some bd
     \<and> 0 \<le> tm_frac_nanos bd \<and> tm_frac_nanos bd \<le> 999999999
     \<and> 0 \<le> tm_hour bd \<and> tm_hour bd \<le> 23
     \<and> 0 \<le> tm_minute bd \<and> tm_minute bd \<le> 59
     \<and> 0 \<le> tm_second bd \<and> tm_second bd \<le> 59
     \<and> 1 \<le> tm_month bd \<and> tm_month bd \<le> 12
     \<and> 1 \<le> tm_day bd \<and> tm_day bd \<le> ut_internal_days_in_month (tm_year bd) (tm_month bd)
     \<and> ut_internal_to_nanos (tm_year bd) (tm_month bd) (tm_day bd) (tm_hour bd) (tm_minute bd)
          (tm_second bd) (tm_frac_nanos bd) = n"
proof -
  define S where "S = sint n div 1000000000 mod 86400"
  from from_nanos_date [of n] obtain y m d where
    bd: "ut_internal_from_nanos n =
            Some \<lparr> tm_year = y, tm_month = m, tm_day = d,
                   tm_hour = S div 3600, tm_minute = S mod 3600 div 60, tm_second = S mod 60,
                   tm_frac_nanos = sint n mod 1000000000 \<rparr>"
    and rng: "1 \<le> m" "m \<le> 12" "1 \<le> d" "d \<le> ut_internal_days_in_month y m"
    and days: "days_from_epoch y m d = sint n div 1000000000 div 86400"
    unfolding S_def by blast
  have S: "0 \<le> S" "S < 86400" by (simp_all add: S_def)
  let ?bd = "\<lparr> tm_year = y, tm_month = m, tm_day = d,
                   tm_hour = S div 3600, tm_minute = S mod 3600 div 60, tm_second = S mod 60,
                   tm_frac_nanos = sint n mod 1000000000 \<rparr>"
  have "ut_internal_to_nanos (tm_year ?bd) (tm_month ?bd) (tm_day ?bd) (tm_hour ?bd) (tm_minute ?bd)
          (tm_second ?bd) (tm_frac_nanos ?bd) = n"
    using to_nanos_of_fields [OF days] by (simp only: broken_down.select_convs S_def)
  moreover have "0 \<le> tm_frac_nanos ?bd \<and> tm_frac_nanos ?bd \<le> 999999999
     \<and> 0 \<le> tm_hour ?bd \<and> tm_hour ?bd \<le> 23
     \<and> 0 \<le> tm_minute ?bd \<and> tm_minute ?bd \<le> 59
     \<and> 0 \<le> tm_second ?bd \<and> tm_second ?bd \<le> 59
     \<and> 1 \<le> tm_month ?bd \<and> tm_month ?bd \<le> 12
     \<and> 1 \<le> tm_day ?bd \<and> tm_day ?bd \<le> ut_internal_days_in_month (tm_year ?bd) (tm_month ?bd)"
    using rng time_of_day_ranges [OF S] frac_range [of "sint n"]
    by (simp only: broken_down.select_convs simp_thms)
  ultimately show ?thesis
    using bd by blast
qed

section \<open>Monotonic generator\<close>

lemma cas_retry_loop_value:
  "fst (cas_retry_loop k cb cur l) = (if sint cur \<le> sint l then l + 1 else cur)"
  by (induction k) (simp_all add: Let_def split_beta)

lemma sint_succ64:
  fixes w :: "64 word"
  assumes "sint w < 2 ^ 63 - 1"
  shows "sint (w + 1) = sint w + 1"
proof -
  have "- (2 ^ 63) \<le> sint w" using sint_ge [of w] by simp
  with assms show ?thesis
    by (simp add: sint_word_ariths signed_take_bit_int_eq_self)
qed

text \<open>
  One call made while \<^verbatim>\<open>g_last_monotonic\<close> is below \<^verbatim>\<open>INT64_MAX\<close>: the result is
  greater than the previous value and is the new value, whatever the clock reads and
  however often the exchange fails.
\<close>

lemma ut_now_monotonic_step:
  assumes "sint (g_last_monotonic st) < 2 ^ 63 - 1"
    and "ut_now_monotonic now k st = (ts, evs, st')"
  shows "sint (g_last_monotonic st) < sint (nanos ts) \<and> g_last_monotonic st' = nanos ts"
proof -
  have v: "nanos ts = fst (cas_retry_loop k (g_regression_callback st) now (g_last_monotonic st))"
    and s: "g_last_monotonic st' = nanos ts"
    using assms(2) by (auto simp: ut_now_monotonic_def split_beta Let_def)
  show ?thesis
    using s sint_succ64 [OF assms(1)] unfolding v cas_retry_loop_value by auto
qed

text \<open>
  Claim C2 as stated fails: from the initial state, a clock reading of \<^verbatim>\<open>INT64_MAX\<close>
  is returned as it is, and the next call computes \<^verbatim>\<open>last + 1\<close>, which wraps to
  \<^verbatim>\<open>INT64_MIN\<close>: the second result is smaller than the first.
\<close>

theorem generate_all_wraps_at_int64_max:
  "fst (generate_all initial_state [(0x7FFFFFFFFFFFFFFF, 0), (5, 0)])
     = [0x7FFFFFFFFFFFFFFF, 0x8000000000000000]
   \<and> sint (0x8000000000000000 :: 64 word) < sint (0x7FFFFFFFFFFFFFFF :: 64 word)"
  by (simp add: initial_state_def ut_now_monotonic_def)

text \<open>
  Claim C2, amended.  For every sequence of calls, each with an arbitrary clock reading
  and an arbitrary number of spurious exchange failures, and from every state: if every
  call is made while \<^verbatim>\<open>g_last_monotonic\<close> is below \<^verbatim>\<open>INT64_MAX\<close> (the values the
  calls start from are the initial one and all results but the last), then the initial
  value followed by the results is strictly increasing as signed 64-bit numbers, so each
  result exceeds the previous value of \<^verbatim>\<open>g_last_monotonic\<close> by at least 1, and
  \<^verbatim>\<open>g_last_monotonic\<close> ends as the last result.
\<close>

theorem generate_all_increasing:
  "generate_all st calls = (results, st') \<Longrightarrow>
   \<forall>v \<in> set (butlast (g_last_monotonic st # results)). sint v < 2 ^ 63 - 1 \<Longrightarrow>
   sorted_wrt (\<lambda>a b. sint a < sint b) (g_last_monotonic st # results)
   \<and> g_last_monotonic st' = last (g_last_monotonic st # results)"
proof (induction calls arbitrary: st results st')
  case Nil
  then show ?case by simp
next
  case (Cons call calls)
  obtain now k where call: "call = (now, k)" by (cases call)
  obtain ts evs st1 where step: "ut_now_monotonic now k st = (ts, evs, st1)"
    by (cases "ut_now_monotonic now k st")
  obtain rs st2 where rest: "generate_all st1 calls = (rs, st2)"
    by (cases "generate_all st1 calls")
  from Cons.prems(1) have res: "results = nanos ts # rs" and st': "st' = st2"
    by (simp_all add: call step rest)
  from Cons.prems(2) have here: "sint (g_last_monotonic st) < 2 ^ 63 - 1"
    and later: "\<forall>v \<in> set (butlast (nanos ts # rs)). sint v < 2 ^ 63 - 1"
    by (simp_all add: res)
  from ut_now_monotonic_step [OF here step]
  have gt: "sint (g_last_monotonic st) < sint (nanos ts)" and upd: "g_last_monotonic st1 = nanos ts"
    by simp_all
  from Cons.IH [OF rest [folded st']] later
  have ih: "sorted_wrt (\<lambda>a b. sint a < sint b) (nanos ts # rs)"
    and fin: "g_last_monotonic st' = last (nanos ts # rs)"
    by (simp_all add: upd)
  from ih have "\<forall>y \<in> set rs. sint (nanos ts) < sint y" by simp
  with gt have "\<forall>y \<in> set (nanos ts # rs). sint (g_last_monotonic st) < sint y"
    by auto
  with ih have "sorted_wrt (\<lambda>a b. sint a < sint b) (g_last_monotonic st # nanos ts # rs)"
    by simp
  with fin show ?case by (simp add: res)
qed

text \<open>
  The theorem at a stalled and regressing clock: readings 5, 3, 3, 100 give 5, 6, 7, 100.
\<close>

theorem generate_all_increasing_witness:
  "generate_all initial_state [(5, 0), (3, 2), (3, 0), (100, 1)]
     = ([5, 6, 7, 100], \<lparr> g_last_monotonic = 100, g_regression_callback = False \<rparr>)
   \<and> list_all (\<lambda>v. sint v < 2 ^ 63 - 1) (butlast (g_last_monotonic initial_state # [5, 6, 7, 100]))
   \<and> sorted_wrt (\<lambda>a b. sint a < sint b) (g_last_monotonic initial_state # [5, 6, 7, 100])
   \<and> g_last_monotonic \<lparr> g_last_monotonic = 100, g_regression_callback = False \<rparr>
        = last (g_last_monotonic initial_state # [5, 6, 7, 100])"
proof -
  have run: "generate_all initial_state [(5, 0), (3, 2), (3, 0), (100, 1)]
     = ([5, 6, 7, 100], \<lparr> g_last_monotonic = 100, g_regression_callback = False \<rparr>)"
    by (simp add: initial_state_def ut_now_monotonic_def numeral_2_eq_2)
  have ok: "\<forall>v \<in> set (butlast (g_last_monotonic initial_state # [5, 6, 7, 100])). sint v < 2 ^ 63 - 1"
    by (simp add: initial_state_def)
  from generate_all_increasing [OF run ok] run ok show ?thesis
    by (simp only: list_all_iff simp_thms)
qed

section \<open>Parser: error results\<close>

lemma parse_fields_never_leap_second: "parse_fields str \<noteq> Inl UT_ERR_LEAP_SECOND"
  by (auto simp add: parse_fields_def Let_def)

text \<open>
  Claim C3 fails on the code.  The range check \<^verbatim>\<open>second > 59\<close> comes before the test
  \<^verbatim>\<open>second == 60\<close> and already holds for 60, so the input of the claim's example is
  answered with \<^verbatim>\<open>UT_ERR_OUT_OF_RANGE\<close> in both modes.
\<close>

theorem second_60_is_out_of_range:
  "fst (ut_parse_strict (Some ''2024-12-14T03:13:60Z'') (Some \<lparr> nanos = 0 \<rparr>)) = UT_ERR_OUT_OF_RANGE
   \<and> fst (ut_parse_lenient (Some ''2024-12-14T03:13:60Z'') (Some \<lparr> nanos = 0 \<rparr>)) = UT_ERR_OUT_OF_RANGE"
  by code_simp

lemma parse_timestamp_out:
  "(fst (parse_timestamp str out strict) \<noteq> UT_OK \<longrightarrow> snd (parse_timestamp str out strict) = out)
   \<and> (fst (parse_timestamp str out strict) = UT_OK \<longrightarrow>
        out \<noteq> None \<and> (\<exists>ts. snd (parse_timestamp str out strict) = Some ts))"
  by (simp add: parse_timestamp_def split: option.split sum.split prod.split)

text \<open>
  Claim C9.  In both modes and for every input string pointer and output pointer: if
  the returned code is not \<^verbatim>\<open>UT_OK\<close>, the content of \<^verbatim>\<open>*out\<close> after the call is the
  content before it.
\<close>

theorem parse_error_leaves_out_unchanged:
  "(fst (ut_parse_strict str out) \<noteq> UT_OK \<longrightarrow> snd (ut_parse_strict str out) = out)
   \<and> (fst (ut_parse_lenient str out) \<noteq> UT_OK \<longrightarrow> snd (ut_parse_lenient str out) = out)"
  using parse_timestamp_out [of str out True] parse_timestamp_out [of str out False]
  by (simp add: ut_parse_strict_def ut_parse_lenient_def)

text \<open>The theorem at an input that both modes reject, with 42 stored in \<^verbatim>\<open>*out\<close>.\<close>

theorem parse_error_leaves_out_unchanged_witness:
  "fst (ut_parse_strict (Some ''2024-02-30T00:00:00Z'') (Some \<lparr> nanos = 42 \<rparr>)) \<noteq> UT_OK
   \<and> snd (ut_parse_strict (Some ''2024-02-30T00:00:00Z'') (Some \<lparr> nanos = 42 \<rparr>))
        = Some \<lparr> nanos = 42 \<rparr>
   \<and> fst (ut_parse_lenient (Some ''2024-02-30T00:00:00Z'') (Some \<lparr> nanos = 42 \<rparr>)) \<noteq> UT_OK
   \<and> snd (ut_parse_lenient (Some ''2024-02-30T00:00:00Z'') (Some \<lparr> nanos = 42 \<rparr>))
        = Some \<lparr> nanos = 42 \<rparr>"
proof -
  have s: "fst (ut_parse_strict (Some ''2024-02-30T00:00:00Z'') (Some \<lparr> nanos = 42 \<rparr>))
             = UT_ERR_INVALID_DATE"
    by code_simp
  have l: "fst (ut_parse_lenient (Some ''2024-02-30T00:00:00Z'') (Some \<lparr> nanos = 42 \<rparr>))
             = UT_ERR_INVALID_DATE"
    by code_simp
  from parse_error_leaves_out_unchanged
         [of "Some ''2024-02-30T00:00:00Z''" "Some \<lparr> nanos = 42 \<rparr>"] s l
  show ?thesis by simp
qed

section \<open>Decimal digits\<close>

lemma of_char_digit [simp]:
  "d < 10 \<Longrightarrow> (of_char (char_of (48 + d :: nat)) :: nat) = 48 + d"
  by simp

lemma of_char_digit_int [simp]:
  "d < 10 \<Longrightarrow> (of_char (char_of (48 + d :: nat)) :: int) = 48 + int d"
proof -
  assume "d < 10"
  then have "(of_char (char_of (48 + d)) :: nat) = 48 + d" by simp
  then have "int (of_char (char_of (48 + d)) :: nat) = int (48 + d)" by simp
  then show ?thesis by (simp only: of_nat_of_char)
qed

lemma is_digit_char_digit [simp]: "d < 10 \<Longrightarrow> is_digit_char (char_of (48 + d :: nat))"
  by (simp add: is_digit_char_def)

lemma is_digit_char_iff: "is_digit_char c \<longleftrightarrow> (48::nat) \<le> of_char c \<and> (of_char c :: nat) \<le> 57"
  by (simp add: is_digit_char_def)

lemma not_digit_simps [simp]:
  "\<not> is_digit_char (CHR ''Z'')" "\<not> is_digit_char (CHR ''z'')" "\<not> is_digit_char (CHR ''+'')"
  "\<not> is_digit_char (CHR ''-'')" "\<not> is_digit_char (CHR ''.'')" "\<not> is_digit_char (CHR '':'')"
  "\<not> is_digit_char (CHR 0x00)" "is_digit_char (CHR ''0'')"
  by (simp_all add: is_digit_char_def)

lemma digits_value_snoc:
  "digits_value (ds @ [c]) = digits_value ds * 10 + (of_char c - 48)"
  by (simp add: digits_value_def)

lemma digits_value_Nil [simp]: "digits_value [] = 0"
  by (simp add: digits_value_def)

lemma length_pad_digits [simp]: "length (pad_digits w n) = w"
  by (induction w arbitrary: n) simp_all

lemma pad_digits_all_digits [simp]: "list_all is_digit_char (pad_digits w n)"
  by (induction w arbitrary: n) simp_all

lemma digits_value_pad_digits: "digits_value (pad_digits w n) = int (n mod 10 ^ w)"
proof (induction w arbitrary: n)
  case 0
  show ?case by simp
next
  case (Suc w)
  have "n mod 10 ^ Suc w = (n div 10 mod 10 ^ w) * 10 + n mod 10"
    by (simp add: mod_mult2_eq)
  then show ?case
    by (simp add: digits_value_snoc Suc.IH)
qed

lemma char_of_48: "char_of (48 :: nat) = CHR ''0''"
  by (rule of_char_eqI [where ?'a = nat]) simp

lemma pad_digits_zero: "pad_digits w 0 = replicate w (CHR ''0'')"
  by (induction w) (simp_all add: replicate_append_same char_of_48)

lemma dec_digits_nonempty: "dec_digits n \<noteq> []"
  by (subst dec_digits.simps) simp

lemma pad_dec_digits:
  "0 < w \<Longrightarrow> n < 10 ^ w \<Longrightarrow>
   length (dec_digits n) \<le> w \<and>
   replicate (w - length (dec_digits n)) (CHR ''0'') @ dec_digits n = pad_digits w n"
proof (induction w arbitrary: n)
  case 0
  then show ?case by simp
next
  case (Suc w)
  show ?case
  proof (cases "n < 10")
    case True
    then have "dec_digits n = [char_of (48 + n)]"
      by (subst dec_digits.simps) simp
    with True show ?thesis
      by (simp add: pad_digits_zero)
  next
    case False
    then have w: "0 < w" using Suc.prems by (cases w) simp_all
    have d: "dec_digits n = dec_digits (n div 10) @ [char_of (48 + n mod 10)]"
      using False by (subst dec_digits.simps) simp
    have "n div 10 < 10 ^ w" using Suc.prems by simp
    from Suc.IH [OF w this] show ?thesis
      by (simp add: d Suc_diff_le)
  qed
qed

lemma fmt_0d_pad:
  "0 < w \<Longrightarrow> 0 \<le> v \<Longrightarrow> v < 10 ^ w \<Longrightarrow> fmt_0d w v = pad_digits w (nat v)"
proof -
  assume w: "0 < w" and v: "0 \<le> v" "v < 10 ^ w"
  then have "nat v < 10 ^ w"
    by (simp add: nat_less_iff)
  from pad_dec_digits [OF w this] v show ?thesis
    by (simp add: fmt_0d_def)
qed


section \<open>The parsing loops\<close>

lemma char_at_nth [simp]: "i < length s \<Longrightarrow> char_at s i = s ! i"
  by (simp add: char_at_def)

lemma char_at_end [simp]: "length s \<le> i \<Longrightarrow> char_at s i = CHR 0x00"
  by (simp add: char_at_def)

lemma take_drop_step:
  "i < n \<Longrightarrow> n \<le> length s \<Longrightarrow>
   take (n - i) (drop i s) = s ! i # take (n - (i + 1)) (drop (i + 1) s)"
proof -
  assume a: "i < n" "n \<le> length s"
  then have "drop i s = s ! i # drop (Suc i) s"
    by (simp add: Cons_nth_drop_Suc)
  moreover from a have "n - i = Suc (n - (i + 1))" by simp
  ultimately show ?thesis by simp
qed

lemma parse_int_loop_eq:
  "n \<le> length str \<Longrightarrow> i \<le> n \<Longrightarrow>
   parse_int_loop str n i val =
     (if list_all is_digit_char (take (n - i) (drop i str))
      then foldl (\<lambda>v c. v * 10 + (of_char c - of_char (CHR ''0''))) val (take (n - i) (drop i str))
      else - 1)"
proof (induction str n i val rule: parse_int_loop.induct)
  case (1 str n i val)
  show ?case
  proof (cases "i < n")
    case False
    with "1.prems" show ?thesis
      by (subst parse_int_loop.simps) simp
  next
    case True
    note td = take_drop_step [OF True "1.prems"(1)]
    have c: "char_at str i = str ! i" using True "1.prems" by simp
    show ?thesis
    proof (cases "is_digit_char (str ! i)")
      case False
      then show ?thesis
        using True by (subst parse_int_loop.simps) (auto simp: c td is_digit_char_def Let_def)
    next
      case dig: True
      then have nd: "\<not> ((of_char (str ! i) :: nat) < of_char (CHR ''0'')
                     \<or> (of_char (str ! i) :: nat) > of_char (CHR ''9''))"
        by (auto simp: is_digit_char_def)
      have "parse_int_loop str n i val
              = parse_int_loop str n (i + 1) (val * 10 + (of_char (str ! i) - of_char (CHR ''0'')))"
        using True nd by (subst parse_int_loop.simps) (simp add: c Let_def del: of_char_Char)
      also have "\<dots> = (if list_all is_digit_char (take (n - (i + 1)) (drop (i + 1) str))
          then foldl (\<lambda>v c. v * 10 + (of_char c - of_char (CHR ''0'')))
                 (val * 10 + (of_char (str ! i) - of_char (CHR ''0'')))
                 (take (n - (i + 1)) (drop (i + 1) str))
          else - 1)"
        using True "1.prems" nd by (intro "1.IH" [OF True c [symmetric]]) (simp_all del: of_char_Char add: c)
      finally show ?thesis
        using dig by (simp add: td del: of_char_Char)
    qed
  qed
qed

lemma ut_internal_parse_int_eq:
  "n \<le> length str \<Longrightarrow>
   ut_internal_parse_int str n =
     (if list_all is_digit_char (take n str) then digits_value (take n str) else - 1)"
  using parse_int_loop_eq [of n str 0 0]
  by (simp add: ut_internal_parse_int_def digits_value_def)

lemma scan_digits_eq:
  "scan_digits str pos = pos + length (takeWhile is_digit_char (drop pos str))"
proof (induction str pos rule: scan_digits.induct)
  case (1 str pos)
  show ?case
  proof (cases "pos < length str \<and> is_digit_char (str ! pos)")
    case True
    then have "scan_digits str pos = scan_digits str (pos + 1)"
      by (subst scan_digits.simps) (simp add: is_digit_char_def)
    also have "\<dots> = pos + 1 + length (takeWhile is_digit_char (drop (pos + 1) str))"
      using True by (intro "1.IH") (simp add: is_digit_char_def)
    finally have "scan_digits str pos
                    = pos + 1 + length (takeWhile is_digit_char (drop (pos + 1) str))" .
    moreover have "drop pos str = str ! pos # drop (pos + 1) str"
      using True by (simp add: Cons_nth_drop_Suc)
    ultimately show ?thesis using True by simp
  next
    case False
    then have "scan_digits str pos = pos"
      by (subst scan_digits.simps) (auto simp: is_digit_char_def)
    moreover have "takeWhile is_digit_char (drop pos str) = []"
    proof (cases "pos < length str")
      case True
      with False have "\<not> is_digit_char (str ! pos)" by simp
      moreover have "drop pos str = str ! pos # drop (Suc pos) str"
        using True by (simp add: Cons_nth_drop_Suc)
      ultimately show ?thesis by simp
    next
      case False
      then show ?thesis by simp
    qed
    ultimately show ?thesis by simp
  qed
qed

lemma parse_fraction_loop_eq:
  "0 \<le> i \<Longrightarrow> i \<le> len \<Longrightarrow> nat len \<le> length str \<Longrightarrow>
   parse_fraction_loop str len i val =
     (if list_all is_digit_char (take (nat len - nat i) (drop (nat i) str))
      then Some (foldl (\<lambda>v c. v * 10 + (of_char c - of_char (CHR ''0''))) val
                   (take (nat len - nat i) (drop (nat i) str)))
      else None)"
proof (induction str len i val rule: parse_fraction_loop.induct)
  case (1 str len i val)
  show ?case
  proof (cases "i < len")
    case False
    with "1.prems" show ?thesis
      by (subst parse_fraction_loop.simps) simp
  next
    case True
    then have lt: "nat i < nat len" using "1.prems" by simp
    have suc: "nat (i + 1) = nat i + 1" using "1.prems" by simp
    note td = take_drop_step [OF lt "1.prems"(3)]
    have "nat i < length str" using lt "1.prems"(3) by linarith
    then have c: "char_at str (nat i) = str ! nat i" by simp
    show ?thesis
    proof (cases "is_digit_char (str ! nat i)")
      case False
      then show ?thesis
        using True by (subst parse_fraction_loop.simps) (auto simp: c td is_digit_char_def Let_def)
    next
      case dig: True
      then have nd: "\<not> ((of_char (str ! nat i) :: nat) < of_char (CHR ''0'')
                     \<or> (of_char (str ! nat i) :: nat) > of_char (CHR ''9''))"
        by (auto simp: is_digit_char_def)
      have "parse_fraction_loop str len i val
              = parse_fraction_loop str len (i + 1) (val * 10 + (of_char (str ! nat i) - of_char (CHR ''0'')))"
        using True nd by (subst parse_fraction_loop.simps) (simp add: c Let_def del: of_char_Char)
      also have "\<dots> = (if list_all is_digit_char (take (nat len - nat (i + 1)) (drop (nat (i + 1)) str))
          then Some (foldl (\<lambda>v c. v * 10 + (of_char c - of_char (CHR ''0'')))
                 (val * 10 + (of_char (str ! nat i) - of_char (CHR ''0'')))
                 (take (nat len - nat (i + 1)) (drop (nat (i + 1)) str)))
          else None)"
        using True "1.prems" nd by (intro "1.IH" [OF True c [symmetric]]) (simp_all del: of_char_Char add: c)
      finally show ?thesis
        using dig by (simp add: td suc del: of_char_Char)
    qed
  qed
qed

lemma multipliers_nth: "1 \<le> k \<Longrightarrow> k \<le> 9 \<Longrightarrow> multipliers ! (k - 1) = 10 ^ (9 - k)"
proof -
  assume "1 \<le> k" "k \<le> 9"
  then have "k = 1 \<or> k = 2 \<or> k = 3 \<or> k = 4 \<or> k = 5 \<or> k = 6 \<or> k = 7 \<or> k = 8 \<or> k = 9"
    by arith
  then show ?thesis
    by (auto simp: multipliers_def)
qed

lemma ut_internal_parse_fraction_eq:
  "1 \<le> k \<Longrightarrow> k \<le> 9 \<Longrightarrow> k \<le> length str \<Longrightarrow>
   ut_internal_parse_fraction str (int k) =
     (if list_all is_digit_char (take k str) then digits_value (take k str) * 10 ^ (9 - k) else - 1)"
  using parse_fraction_loop_eq [of 0 "int k" str 0] multipliers_nth [of k]
  by (simp add: ut_internal_parse_fraction_def digits_value_def nat_diff_distrib)

lemma is_digit_char_int: "is_digit_char c \<Longrightarrow> 48 \<le> (of_char c :: int) \<and> (of_char c :: int) \<le> 57"
proof -
  assume "is_digit_char c"
  then have "int 48 \<le> int (of_char c) \<and> int (of_char c) \<le> int 57"
    unfolding is_digit_char_iff by (simp only: of_nat_le_iff)
  then show ?thesis by (simp only: of_nat_of_char) simp
qed

lemma digits_value_nonneg: "list_all is_digit_char ds \<Longrightarrow> 0 \<le> digits_value ds"
proof (induction ds rule: rev_induct)
  case Nil
  show ?case by simp
next
  case (snoc c ds)
  then have "0 \<le> digits_value ds" and "is_digit_char c" by simp_all
  then show ?case
    using is_digit_char_int [of c] by (simp add: digits_value_snoc)
qed

lemma digits_value_zeros: "digits_value (ds @ replicate j (CHR ''0'')) = digits_value ds * 10 ^ j"
proof (induction j)
  case 0
  show ?case by simp
next
  case (Suc j)
  have "ds @ replicate (Suc j) (CHR ''0'') = (ds @ replicate j (CHR ''0'')) @ [CHR ''0'']"
    by (simp add: replicate_append_same)
  then show ?case
    by (simp only: digits_value_snoc Suc) simp
qed


section \<open>The blocks of the parser\<close>

lemma parse_fields_prefix:
  assumes "19 \<le> length str"
  shows "parse_fields str = parse_fields (take 19 str)"
proof -
  have ca: "char_at (take 19 str) k = char_at str k" if "k < 19" for k
    using that assms by (simp add: char_at_def)
  have pi: "ut_internal_parse_int (drop k (take 19 str)) n = ut_internal_parse_int (drop k str) n"
    if "k + n \<le> 19" for k n
  proof -
    have "take n (drop k (take 19 str)) = take n (drop k str)"
      using that by (simp add: drop_take min_def)
    then show ?thesis
      using that assms by (simp add: ut_internal_parse_int_eq)
  qed
  have p0: "ut_internal_parse_int (take 19 str) 4 = ut_internal_parse_int str 4"
    using pi [of 0 4] by simp
  show ?thesis
    using assms by (simp add: parse_fields_def ca pi p0 Let_def)
qed

lemma parse_fields_append:
  "length d = 19 \<Longrightarrow> parse_fields (d @ rest) = parse_fields d"
  using parse_fields_prefix [of "d @ rest"] by simp

lemma takeWhile_digits:
  "list_all is_digit_char ds \<Longrightarrow> rest = [] \<or> \<not> is_digit_char (hd rest) \<Longrightarrow>
   takeWhile is_digit_char (ds @ rest) = ds"
  by (cases rest) (auto simp: list_all_iff intro: takeWhile_eq_all_conv [THEN iffD2])

lemma fraction_block_absent:
  "length d = 19 \<Longrightarrow> rest = [] \<or> hd rest \<noteq> CHR ''.'' \<Longrightarrow>
   parse_fraction_block (d @ rest) strict = Inr (0, 19)"
  by (cases rest) (auto simp: parse_fraction_block_def Let_def nth_append)

lemma size_to_int_small: "n < 2 ^ 31 \<Longrightarrow> size_to_int n = int n"
proof -
  assume "n < 2 ^ 31"
  then have b: "0 \<le> int n" "int n < 2147483648" by simp_all
  have "size_to_int n = sint (word_of_int (int n) :: 32 word)"
    by (simp only: size_to_int_def of_int_of_nat_eq)
  also have "\<dots> = (int n + 2147483648) mod 4294967296 - 2147483648"
    by (simp only: int_word_sint) simp
  also have "(int n + 2147483648) mod 4294967296 = int n + 2147483648"
    using b by (intro mod_pos_pos_trivial) simp_all
  finally show ?thesis by simp
qed

lemma size_to_int_wrap:
  "size_to_int 4294967297 = 1" "size_to_int 2147483648 = - 2147483648"
  by (simp_all add: size_to_int_def)

text \<open>
  The fraction block on a dot followed by the digits \<open>ds\<close>, for every number of digits:
  the scan consumes all of them and the rest depends on the cast of their count.
\<close>

lemma fraction_block_cast:
  assumes d: "length d = 19" and ds: "list_all is_digit_char ds"
    and rest: "rest = [] \<or> \<not> is_digit_char (hd rest)"
  shows "parse_fraction_block (d @ CHR ''.'' # ds @ rest) strict =
     (if size_to_int (length ds) = 0 then Inl UT_ERR_INVALID_FORMAT
      else if size_to_int (length ds) > 9 \<and> strict then Inl UT_ERR_FRACTION_TOO_LONG
      else if ut_internal_parse_fraction (ds @ rest)
                (if size_to_int (length ds) > 9 then 9 else size_to_int (length ds)) < 0
      then Inl UT_ERR_INVALID_FORMAT
      else Inr (ut_internal_parse_fraction (ds @ rest)
                  (if size_to_int (length ds) > 9 then 9 else size_to_int (length ds)),
                20 + length ds))"
proof -
  define str where "str = d @ CHR ''.'' # ds @ rest"
  have dr: "drop 20 str = ds @ rest" using d by (simp add: str_def)
  have scan: "scan_digits str 20 = 20 + length ds"
    unfolding scan_digits_eq dr takeWhile_digits [OF ds rest] ..
  have dot: "19 < length str" "char_at str 19 = CHR ''.''"
    using d by (simp_all add: nth_append str_def)
  define c where "c = size_to_int (length ds)"
  have "parse_fraction_block str strict =
     (if c = 0 then Inl UT_ERR_INVALID_FORMAT
      else if c > 9 \<and> strict then Inl UT_ERR_FRACTION_TOO_LONG
      else if ut_internal_parse_fraction (ds @ rest) (if c > 9 then 9 else c) < 0
      then Inl UT_ERR_INVALID_FORMAT
      else Inr (ut_internal_parse_fraction (ds @ rest) (if c > 9 then 9 else c), 20 + length ds))"
    using dot by (cases "9 < c") (simp_all add: parse_fraction_block_def Let_def scan dr c_def)
  then show ?thesis
    unfolding str_def c_def .
qed

lemma fraction_block_present:
  assumes d: "length d = 19" and ds: "list_all is_digit_char ds"
    and rest: "rest = [] \<or> \<not> is_digit_char (hd rest)"
    and bound: "length ds < 2 ^ 31"
  shows "parse_fraction_block (d @ CHR ''.'' # ds @ rest) strict =
     (if ds = [] then Inl UT_ERR_INVALID_FORMAT
      else if length ds > 9 \<and> strict then Inl UT_ERR_FRACTION_TOO_LONG
      else Inr (digits_value (take 9 ds) * 10 ^ (9 - min 9 (length ds)), 20 + length ds))"
proof -
  define k where "k = min 9 (length ds)"
  have c: "size_to_int (length ds) = int (length ds)"
    by (rule size_to_int_small [OF bound])
  have fl: "(if int (length ds) > 9 then 9 else int (length ds)) = int k"
    by (simp add: k_def min_def)
  have blk: "parse_fraction_block (d @ CHR ''.'' # ds @ rest) strict =
     (if int (length ds) = 0 then Inl UT_ERR_INVALID_FORMAT
      else if int (length ds) > 9 \<and> strict then Inl UT_ERR_FRACTION_TOO_LONG
      else if ut_internal_parse_fraction (ds @ rest) (int k) < 0 then Inl UT_ERR_INVALID_FORMAT
      else Inr (ut_internal_parse_fraction (ds @ rest) (int k), 20 + length ds))"
    unfolding fraction_block_cast [OF d ds rest] c fl ..
  show ?thesis
  proof (cases "ds = []")
    case True
    then show ?thesis
      unfolding blk by simp
  next
    case False
    have k: "1 \<le> k" "k \<le> 9" "k \<le> length (ds @ rest)" "take k (ds @ rest) = take 9 ds"
      using False by (auto simp: k_def min_def Suc_le_eq)
    have dg: "list_all is_digit_char (take 9 ds)"
      using ds by (auto simp: list_all_iff dest: in_set_takeD)
    have pf: "ut_internal_parse_fraction (ds @ rest) (int k) = digits_value (take 9 ds) * 10 ^ (9 - k)"
      unfolding ut_internal_parse_fraction_eq [OF k(1,2,3)] k(4) using dg by simp
    have nn: "\<not> digits_value (take 9 ds) * 10 ^ (9 - k) < 0"
      using digits_value_nonneg [OF dg] by (simp add: not_less)
    show ?thesis
      unfolding blk pf k_def [symmetric] using False nn by simp
  qed
qed

section \<open>The formatter's text\<close>

lemma frac_fill_loop_eq:
  "0 \<le> f \<Longrightarrow> - 1 \<le> i \<Longrightarrow> nat (i + 1) \<le> length buf \<Longrightarrow>
   frac_fill_loop i f buf = pad_digits (nat (i + 1)) (nat f) @ drop (nat (i + 1)) buf"
proof (induction i f buf rule: frac_fill_loop.induct)
  case (1 i f buf)
  show ?case
  proof (cases "0 \<le> i")
    case False
    with "1.prems" have "i = - 1" by simp
    then show ?thesis by (subst frac_fill_loop.simps) simp
  next
    case True
    let ?c = "char_of (48 + f smod 10) :: char"
    have c: "?c = char_of (48 + nat f mod 10)"
    proof -
      have "48 + f smod 10 = int (48 + nat f mod 10)"
        using "1.prems"(1) by (simp add: nonneg_smod zmod_int)
      then show ?thesis by (simp only: char_of_nat)
    qed
    have len: "nat i < length buf" using True "1.prems" by simp
    have suc: "nat (i + 1) = Suc (nat i)" using True by simp
    have "frac_fill_loop i f buf = frac_fill_loop (i - 1) (f sdiv 10) (buf[nat i := ?c])"
      using True by (subst frac_fill_loop.simps) simp
    also have "\<dots> = pad_digits (nat (i - 1 + 1)) (nat (f sdiv 10))
                       @ drop (nat (i - 1 + 1)) (buf[nat i := ?c])"
      using True "1.prems" by (intro "1.IH") (simp_all add: nonneg_sdiv pos_imp_zdiv_nonneg_iff)
    also have "\<dots> = pad_digits (nat i) (nat f div 10) @ ?c # drop (Suc (nat i)) buf"
      using "1.prems"(1) len
      by (simp add: nonneg_sdiv nat_div_distrib Cons_nth_drop_Suc [symmetric])
    finally show ?thesis
      by (simp add: suc c)
  qed
qed

lemma strip_zeros_loop_spec:
  "1 \<le> n \<Longrightarrow>
   1 \<le> strip_zeros_loop n buf \<and> strip_zeros_loop n buf \<le> n
   \<and> (\<forall>i. strip_zeros_loop n buf \<le> i \<and> i < n \<longrightarrow> buf ! i = CHR ''0'')"
proof (induction n buf rule: strip_zeros_loop.induct)
  case (1 digits frac_buf)
  show ?case
  proof (cases "digits > 1 \<and> frac_buf ! (digits - 1) = CHR ''0''")
    case False
    then have "strip_zeros_loop digits frac_buf = digits"
      by (subst strip_zeros_loop.simps) auto
    with "1.prems" show ?thesis by auto
  next
    case True
    then have eq: "strip_zeros_loop digits frac_buf = strip_zeros_loop (digits - 1) frac_buf"
      by (subst strip_zeros_loop.simps) simp
    from True have "1 \<le> digits - 1" by linarith
    from "1.IH" [OF True this]
    have ih: "1 \<le> strip_zeros_loop (digits - 1) frac_buf"
      "strip_zeros_loop (digits - 1) frac_buf \<le> digits - 1"
      "\<forall>i. strip_zeros_loop (digits - 1) frac_buf \<le> i \<and> i < digits - 1 \<longrightarrow> frac_buf ! i = CHR ''0''"
      by simp_all
    have "frac_buf ! i = CHR ''0''"
      if "strip_zeros_loop (digits - 1) frac_buf \<le> i" "i < digits" for i
    proof (cases "i = digits - 1")
      case True
      with \<open>digits > 1 \<and> frac_buf ! (digits - 1) = CHR ''0''\<close> show ?thesis by simp
    next
      case False
      with that have "i < digits - 1" by simp
      with ih(3) that(1) show ?thesis by simp
    qed
    with ih(1,2) show ?thesis unfolding eq by auto
  qed
qed

lemma pad_digits_no_nul: "CHR 0x00 \<notin> set (pad_digits w n)"
proof
  assume "CHR 0x00 \<in> set (pad_digits w n)"
  moreover have "\<forall>c \<in> set (pad_digits w n). is_digit_char c"
    using pad_digits_all_digits [of w n] by (simp only: list_all_iff)
  ultimately have "is_digit_char (CHR 0x00)" by blast
  then show False by simp
qed

lemma c_str_cut:
  assumes "CHR 0x00 \<notin> set xs" "k \<le> length xs"
  shows "c_str ((xs @ ys)[k := CHR 0x00]) = take k xs"
proof (cases "k < length xs")
  case True
  then have "(xs @ ys)[k := CHR 0x00] = take k xs @ CHR 0x00 # drop (Suc k) xs @ ys"
    by (simp add: list_update_append upd_conv_take_nth_drop)
  moreover have "\<forall>c \<in> set (take k xs). c \<noteq> CHR 0x00"
    using assms(1) by (auto dest: in_set_takeD)
  ultimately show ?thesis
    by (simp add: c_str_def)
next
  case False
  with assms have k: "k = length xs" by simp
  have "\<forall>c \<in> set xs. c \<noteq> CHR 0x00" using assms(1) by auto
  then show ?thesis
    unfolding k by (cases ys) (simp_all add: c_str_def list_update_append list_update_beyond)
qed

lemma length_canonical_head [simp]: "length (canonical_head bd) = 19"
  by (simp add: canonical_head_def)

lemma fraction_text_spec:
  assumes "0 \<le> f" "f < 1000000000"
  shows "list_all is_digit_char (fraction_text f)"
    and "1 \<le> length (fraction_text f)" and "length (fraction_text f) \<le> 9"
    and "digits_value (fraction_text f) * 10 ^ (9 - length (fraction_text f)) = f"
    and "CHR 0x00 \<notin> set (fraction_text f)"
proof -
  define ds where "ds = pad_digits 9 (nat f)"
  define k where "k = strip_zeros_loop 9 (ds @ [CHR 0x00])"
  have len: "length ds = 9" and dig: "list_all is_digit_char ds" and nul: "CHR 0x00 \<notin> set ds"
    unfolding ds_def by (rule length_pad_digits, rule pad_digits_all_digits, rule pad_digits_no_nul)
  have "nat f < 10 ^ 9" using assms by (simp add: nat_less_iff)
  then have val: "digits_value ds = f"
    unfolding ds_def digits_value_pad_digits using assms(1) by simp
  have ft: "fraction_text f = take k ds"
    unfolding fraction_text_def k_def ds_def ..
  from strip_zeros_loop_spec [of 9 "ds @ [CHR 0x00]"]
  have k: "1 \<le> k" "k \<le> 9" and z: "\<And>i. k \<le> i \<Longrightarrow> i < 9 \<Longrightarrow> (ds @ [CHR 0x00]) ! i = CHR ''0''"
    unfolding k_def [symmetric] by simp_all
  show "list_all is_digit_char (fraction_text f)"
    using dig unfolding ft by (auto simp: list_all_iff dest: in_set_takeD)
  show "1 \<le> length (fraction_text f)" "length (fraction_text f) \<le> 9"
    using k len by (simp_all add: ft)
  show "CHR 0x00 \<notin> set (fraction_text f)"
    using nul unfolding ft by (auto dest: in_set_takeD)
  have "drop k ds = replicate (9 - k) (CHR ''0'')"
  proof (rule nth_equalityI)
    show "length (drop k ds) = length (replicate (9 - k) (CHR ''0''))" by (simp add: len)
  next
    fix i assume "i < length (drop k ds)"
    then have i: "k + i < 9" by (simp add: len)
    with z [of "k + i"] have "ds ! (k + i) = CHR ''0''"
      by (simp add: nth_append len)
    with i show "drop k ds ! i = replicate (9 - k) (CHR ''0'') ! i" by (simp add: len)
  qed
  then have "ds = take k ds @ replicate (9 - k) (CHR ''0'')"
    using append_take_drop_id [of k ds] by simp
  then have "digits_value ds = digits_value (take k ds @ replicate (9 - k) (CHR ''0''))"
    by simp
  then have "digits_value ds = digits_value (take k ds) * 10 ^ (9 - k)"
    by (simp only: digits_value_zeros)
  moreover have "length (take k ds) = k" using k len by simp
  ultimately show "digits_value (fraction_text f) * 10 ^ (9 - length (fraction_text f)) = f"
    unfolding ft using val by simp
qed

lemma fraction_buffer:
  assumes "0 \<le> f"
  shows "c_str (list_update ((frac_fill_loop 8 f (replicate 10 (CHR 0x00)))[9 := CHR 0x00])
                  (strip_zeros_loop 9 ((frac_fill_loop 8 f (replicate 10 (CHR 0x00)))[9 := CHR 0x00]))
                  (CHR 0x00))
         = fraction_text f"
proof -
  define ds where "ds = pad_digits 9 (nat f)"
  have len: "length ds = 9" and nul: "CHR 0x00 \<notin> set ds"
    unfolding ds_def by (rule length_pad_digits, rule pad_digits_no_nul)
  have n9: "nat (8 + 1) = 9" by simp
  have dr: "drop 9 (replicate 10 (CHR 0x00)) = [CHR 0x00]" by simp
  have "frac_fill_loop 8 f (replicate 10 (CHR 0x00))
          = pad_digits (nat (8 + 1)) (nat f) @ drop (nat (8 + 1)) (replicate 10 (CHR 0x00))"
    using assms by (intro frac_fill_loop_eq) simp_all
  then have fill: "frac_fill_loop 8 f (replicate 10 (CHR 0x00)) = ds @ [CHR 0x00]"
    unfolding n9 dr ds_def .
  have upd: "(ds @ [CHR 0x00])[9 := CHR 0x00] = ds @ [CHR 0x00]"
    by (simp add: list_update_append len)
  have k: "strip_zeros_loop 9 (ds @ [CHR 0x00]) \<le> length ds"
    using strip_zeros_loop_spec [of 9 "ds @ [CHR 0x00]"] by (simp add: len)
  have "c_str ((ds @ [CHR 0x00])[strip_zeros_loop 9 (ds @ [CHR 0x00]) := CHR 0x00])
          = take (strip_zeros_loop 9 (ds @ [CHR 0x00])) ds"
    by (rule c_str_cut [OF nul k])
  then have "c_str (list_update ((ds @ [CHR 0x00])[9 := CHR 0x00])
                  (strip_zeros_loop 9 ((ds @ [CHR 0x00])[9 := CHR 0x00])) (CHR 0x00))
          = take (strip_zeros_loop 9 (ds @ [CHR 0x00])) ds"
    by (simp only: upd)
  then show ?thesis
    unfolding fill fraction_text_def unfolding ds_def .
qed

lemma from_nanos_normalized:
  obtains bd where "ut_internal_from_nanos n = Some bd" and "normalized bd"
    and "ut_internal_to_nanos (tm_year bd) (tm_month bd) (tm_day bd) (tm_hour bd) (tm_minute bd)
           (tm_second bd) (tm_frac_nanos bd) = n"
    and "days_from_epoch (tm_year bd) (tm_month bd) (tm_day bd) = sint n div 1000000000 div 86400"
proof -
  define S where "S = sint n div 1000000000 mod 86400"
  from from_nanos_date [of n] obtain y m d where
    bd: "ut_internal_from_nanos n =
            Some \<lparr> tm_year = y, tm_month = m, tm_day = d,
                   tm_hour = S div 3600, tm_minute = S mod 3600 div 60, tm_second = S mod 60,
                   tm_frac_nanos = sint n mod 1000000000 \<rparr>"
    and rng: "1677 \<le> y" "y \<le> 2262" "1 \<le> m" "m \<le> 12" "1 \<le> d" "d \<le> ut_internal_days_in_month y m"
    and days: "days_from_epoch y m d = sint n div 1000000000 div 86400"
    unfolding S_def by blast
  have S: "0 \<le> S" "S < 86400" by (simp_all add: S_def)
  let ?bd = "\<lparr> tm_year = y, tm_month = m, tm_day = d,
                   tm_hour = S div 3600, tm_minute = S mod 3600 div 60, tm_second = S mod 60,
                   tm_frac_nanos = sint n mod 1000000000 \<rparr>"
  have inv: "ut_internal_to_nanos (tm_year ?bd) (tm_month ?bd) (tm_day ?bd) (tm_hour ?bd) (tm_minute ?bd)
          (tm_second ?bd) (tm_frac_nanos ?bd) = n"
    using to_nanos_of_fields [OF days] by (simp only: broken_down.select_convs S_def)
  have vd: "ut_internal_validate_date y m d"
    using rng by (simp add: ut_internal_validate_date_def)
  have "normalized ?bd"
    unfolding normalized_def broken_down.select_convs
    using vd time_of_day_ranges [OF S] frac_range [of "sint n"] by (simp only: simp_thms)
  moreover have "days_from_epoch (tm_year ?bd) (tm_month ?bd) (tm_day ?bd)
                   = sint n div 1000000000 div 86400"
    using days by (simp only: broken_down.select_convs)
  ultimately show thesis using that [OF bd _ inv] by blast
qed

lemma normalized_date_ranges:
  assumes "normalized bd"
  shows "0 \<le> tm_year bd" "tm_year bd < 10 ^ 4" "0 \<le> tm_month bd" "tm_month bd < 10 ^ 2"
    "0 \<le> tm_day bd" "tm_day bd < 10 ^ 2"
proof -
  from assms have v: "ut_internal_validate_date (tm_year bd) (tm_month bd) (tm_day bd)"
    by (simp add: normalized_def)
  then show "0 \<le> tm_year bd" "tm_year bd < 10 ^ 4" "0 \<le> tm_month bd" "tm_month bd < 10 ^ 2"
    "0 \<le> tm_day bd"
    by (simp_all add: ut_internal_validate_date_def split: if_splits)
  have "ut_internal_days_in_month (tm_year bd) (tm_month bd) \<le> 31"
  proof -
    from v have "1 \<le> tm_month bd" "tm_month bd \<le> 12"
      by (simp_all add: ut_internal_validate_date_def split: if_splits)
    then have "tm_month bd = 1 \<or> tm_month bd = 2 \<or> tm_month bd = 3 \<or> tm_month bd = 4
      \<or> tm_month bd = 5 \<or> tm_month bd = 6 \<or> tm_month bd = 7 \<or> tm_month bd = 8
      \<or> tm_month bd = 9 \<or> tm_month bd = 10 \<or> tm_month bd = 11 \<or> tm_month bd = 12" by arith
    then show ?thesis
      by (auto simp: ut_internal_days_in_month_def DAYS_IN_MONTH_def)
  qed
  with v show "tm_day bd < 10 ^ 2"
    by (simp add: ut_internal_validate_date_def split: if_splits)
qed

lemma length_canonical_text:
  assumes "normalized bd"
  shows "20 \<le> length (canonical_text bd inc)" "length (canonical_text bd inc) \<le> 30"
    "CHR 0x00 \<notin> set (canonical_text bd inc)"
proof -
  from assms have f: "0 \<le> tm_frac_nanos bd" "tm_frac_nanos bd < 1000000000"
    by (simp_all add: normalized_def)
  note ft = fraction_text_spec [OF f]
  show "20 \<le> length (canonical_text bd inc)" "length (canonical_text bd inc) \<le> 30"
    using ft(2,3) by (simp_all add: canonical_text_def)
  have "CHR 0x00 \<notin> set (canonical_head bd)"
    by (simp add: canonical_head_def pad_digits_no_nul)
  with ft(5) show "CHR 0x00 \<notin> set (canonical_text bd inc)"
    by (simp add: canonical_text_def)
qed

lemma ut_format_eq:
  assumes fr: "ut_internal_from_nanos (nanos ts) = Some bd" and n: "normalized bd"
    and sz: "UT_MAX_STRING_LEN \<le> buf_size"
  shows "ut_format ts (Some b) buf_size inc
           = Some (int (length (canonical_text bd inc)), Some (canonical_text bd inc))"
proof -
  have sz32: "32 \<le> buf_size" using sz by (simp add: UT_MAX_STRING_LEN_def)
  note r = normalized_date_ranges [OF n]
  have hms: "0 \<le> tm_hour bd" "tm_hour bd < 10 ^ 2" "0 \<le> tm_minute bd" "tm_minute bd < 10 ^ 2"
    "0 \<le> tm_second bd" "tm_second bd < 10 ^ 2"
    using n by (simp_all add: normalized_def)
  have f: "0 \<le> tm_frac_nanos bd" using n by (simp add: normalized_def)
  have fields: "fmt_0d 4 (tm_year bd) = pad_digits 4 (nat (tm_year bd))"
    "fmt_0d 2 (tm_month bd) = pad_digits 2 (nat (tm_month bd))"
    "fmt_0d 2 (tm_day bd) = pad_digits 2 (nat (tm_day bd))"
    "fmt_0d 2 (tm_hour bd) = pad_digits 2 (nat (tm_hour bd))"
    "fmt_0d 2 (tm_minute bd) = pad_digits 2 (nat (tm_minute bd))"
    "fmt_0d 2 (tm_second bd) = pad_digits 2 (nat (tm_second bd))"
    using r hms by (simp_all only: fmt_0d_pad zero_less_numeral)
  have fit: "length (canonical_text bd inc) \<le> buf_size - Suc 0"
    using length_canonical_text(2) [OF n, of inc] sz32 by simp
  show ?thesis
  proof (cases "inc \<and> tm_frac_nanos bd > 0")
    case True
    have "ut_format ts (Some b) buf_size inc
            = (let (len, written) = snprintf buf_size
                   (canonical_head bd @ ''.'' @ fraction_text (tm_frac_nanos bd) @ ''Z'')
               in Some (len, Some written))"
      using True sz by (simp add: ut_format_def fr Let_def fields canonical_head_def fraction_buffer [OF f] not_less)
    also have "canonical_head bd @ ''.'' @ fraction_text (tm_frac_nanos bd) @ ''Z''
                 = canonical_text bd inc"
      using True by (simp add: canonical_text_def)
    finally show ?thesis
      by (simp add: snprintf_def fit)
  next
    case False
    have "ut_format ts (Some b) buf_size inc
            = (let (len, written) = snprintf buf_size (canonical_head bd @ ''Z'')
               in Some (len, Some written))"
      using False sz by (auto simp add: ut_format_def fr Let_def fields canonical_head_def not_less)
    also have "canonical_head bd @ ''Z'' = canonical_text bd inc"
      using False by (auto simp add: canonical_text_def)
    finally show ?thesis
      by (simp add: snprintf_def fit)
  qed
qed


section \<open>Parsing the formatter's text\<close>

lemma parse_int_at:
  "length pre = k \<Longrightarrow> length ds = n \<Longrightarrow> list_all is_digit_char ds \<Longrightarrow>
   ut_internal_parse_int (drop k (pre @ ds @ post)) n = digits_value ds"
  by (simp add: ut_internal_parse_int_eq)

lemma char_at_at: "length pre = k \<Longrightarrow> char_at (pre @ c # post) k = c"
  by (simp add: char_at_def nth_append)

lemma digits_value_pad_nat:
  "0 \<le> v \<Longrightarrow> v < 10 ^ w \<Longrightarrow> digits_value (pad_digits w (nat v)) = v"
proof -
  assume v: "0 \<le> v" "v < 10 ^ w"
  then have "nat v < 10 ^ w" by (simp add: nat_less_iff)
  with v show ?thesis by (simp add: digits_value_pad_digits)
qed

lemma parse_fields_canonical:
  assumes n: "normalized bd"
  shows "parse_fields (canonical_head bd)
           = Inr (tm_year bd, tm_month bd, tm_day bd, tm_hour bd, tm_minute bd, tm_second bd)"
proof -
  note r = normalized_date_ranges [OF n]
  have hms: "0 \<le> tm_hour bd" "tm_hour bd < 10 ^ 2" "0 \<le> tm_minute bd" "tm_minute bd < 10 ^ 2"
    "0 \<le> tm_second bd" "tm_second bd < 10 ^ 2"
    using n by (simp_all add: normalized_def)
  define Y where "Y = pad_digits 4 (nat (tm_year bd))"
  define M where "M = pad_digits 2 (nat (tm_month bd))"
  define D where "D = pad_digits 2 (nat (tm_day bd))"
  define H where "H = pad_digits 2 (nat (tm_hour bd))"
  define Mi where "Mi = pad_digits 2 (nat (tm_minute bd))"
  define S where "S = pad_digits 2 (nat (tm_second bd))"
  define str where "str = canonical_head bd"
  have str: "str = Y @ ''-'' @ M @ ''-'' @ D @ ''T'' @ H @ '':'' @ Mi @ '':'' @ S"
    by (simp add: str_def canonical_head_def Y_def M_def D_def H_def Mi_def S_def)
  have len: "length Y = 4" "length M = 2" "length D = 2" "length H = 2" "length Mi = 2" "length S = 2"
    by (simp_all add: Y_def M_def D_def H_def Mi_def S_def)
  have dig: "list_all is_digit_char Y" "list_all is_digit_char M" "list_all is_digit_char D"
    "list_all is_digit_char H" "list_all is_digit_char Mi" "list_all is_digit_char S"
    by (simp_all add: Y_def M_def D_def H_def Mi_def S_def)
  have val: "digits_value Y = tm_year bd" "digits_value M = tm_month bd" "digits_value D = tm_day bd"
    "digits_value H = tm_hour bd" "digits_value Mi = tm_minute bd" "digits_value S = tm_second bd"
    unfolding Y_def M_def D_def H_def Mi_def S_def using r hms
    by (simp_all only: digits_value_pad_nat)
  have l: "length str = 19" by (simp add: str_def)
  have seps: "char_at str 4 = CHR ''-''" "char_at str 7 = CHR ''-''" "char_at str 10 = CHR ''T''"
    "char_at str 13 = CHR '':''" "char_at str 16 = CHR '':''"
    using char_at_at [of Y 4 "CHR ''-''" "M @ ''-'' @ D @ ''T'' @ H @ '':'' @ Mi @ '':'' @ S"]
      char_at_at [of "Y @ ''-'' @ M" 7 "CHR ''-''" "D @ ''T'' @ H @ '':'' @ Mi @ '':'' @ S"]
      char_at_at [of "Y @ ''-'' @ M @ ''-'' @ D" 10 "CHR ''T''" "H @ '':'' @ Mi @ '':'' @ S"]
      char_at_at [of "Y @ ''-'' @ M @ ''-'' @ D @ ''T'' @ H" 13 "CHR '':''" "Mi @ '':'' @ S"]
      char_at_at [of "Y @ ''-'' @ M @ ''-'' @ D @ ''T'' @ H @ '':'' @ Mi" 16 "CHR '':''" S]
    by (simp_all add: str len)
  have ints: "ut_internal_parse_int str 4 = tm_year bd"
    "ut_internal_parse_int (drop 5 str) 2 = tm_month bd"
    "ut_internal_parse_int (drop 8 str) 2 = tm_day bd"
    "ut_internal_parse_int (drop 11 str) 2 = tm_hour bd"
    "ut_internal_parse_int (drop 14 str) 2 = tm_minute bd"
    "ut_internal_parse_int (drop 17 str) 2 = tm_second bd"
    using parse_int_at [of "[]" 0 Y 4 "''-'' @ M @ ''-'' @ D @ ''T'' @ H @ '':'' @ Mi @ '':'' @ S"]
      parse_int_at [of "Y @ ''-''" 5 M 2 "''-'' @ D @ ''T'' @ H @ '':'' @ Mi @ '':'' @ S"]
      parse_int_at [of "Y @ ''-'' @ M @ ''-''" 8 D 2 "''T'' @ H @ '':'' @ Mi @ '':'' @ S"]
      parse_int_at [of "Y @ ''-'' @ M @ ''-'' @ D @ ''T''" 11 H 2 "'':'' @ Mi @ '':'' @ S"]
      parse_int_at [of "Y @ ''-'' @ M @ ''-'' @ D @ ''T'' @ H @ '':''" 14 Mi 2 "'':'' @ S"]
      parse_int_at [of "Y @ ''-'' @ M @ ''-'' @ D @ ''T'' @ H @ '':'' @ Mi @ '':''" 17 S 2 "[]"]
    by (simp_all add: str len dig val)
  have ok: "ut_internal_validate_date (tm_year bd) (tm_month bd) (tm_day bd)"
    "0 \<le> tm_hour bd" "tm_hour bd \<le> 23" "0 \<le> tm_minute bd" "tm_minute bd \<le> 59"
    "0 \<le> tm_second bd" "tm_second bd \<le> 59"
    using n by (simp_all add: normalized_def)
  show ?thesis
    unfolding str_def [symmetric]
    using ok r(1,3,5) by (simp add: parse_fields_def Let_def l seps ints not_less)
qed

lemma parse_timestamp_blocks:
  "parse_fields str = Inr (y, m, d, h, mi, s) \<Longrightarrow>
   parse_fraction_block str strict = Inr (frac, pos) \<Longrightarrow>
   parse_timestamp (Some str) (Some old) strict =
     (case parse_designator_block str pos strict of
        Inl err \<Rightarrow> (err, Some old)
      | Inr p \<Rightarrow>
          if p \<noteq> length str then (UT_ERR_INVALID_FORMAT, Some old)
          else (UT_OK, Some \<lparr> nanos = ut_internal_to_nanos y m d h mi s frac \<rparr>))"
  by (simp add: parse_timestamp_def)

lemma designator_Z:
  "pos < length str \<Longrightarrow> char_at str pos = CHR ''Z'' \<Longrightarrow>
   parse_designator_block str pos strict = Inr (pos + 1)"
  by (simp add: parse_designator_block_def Let_def)

lemma parse_canonical_text:
  assumes n: "normalized bd"
  shows "parse_timestamp (Some (canonical_text bd True)) (Some old) strict =
     (UT_OK, Some \<lparr> nanos = ut_internal_to_nanos (tm_year bd) (tm_month bd) (tm_day bd)
                              (tm_hour bd) (tm_minute bd) (tm_second bd) (tm_frac_nanos bd) \<rparr>)"
proof -
  define hd19 where "hd19 = canonical_head bd"
  have l: "length hd19 = 19" by (simp add: hd19_def)
  have pf: "parse_fields (hd19 @ rest)
              = Inr (tm_year bd, tm_month bd, tm_day bd, tm_hour bd, tm_minute bd, tm_second bd)" for rest
    using parse_fields_append [OF l, of rest] parse_fields_canonical [OF n]
    by (simp only: hd19_def)
  from n have f: "0 \<le> tm_frac_nanos bd" "tm_frac_nanos bd < 1000000000"
    by (simp_all add: normalized_def)
  show ?thesis
  proof (cases "tm_frac_nanos bd > 0")
    case False
    with f have z: "tm_frac_nanos bd = 0" by simp
    define str where "str = hd19 @ ''Z''"
    have text_eq: "canonical_text bd True = str"
      using False by (simp add: canonical_text_def str_def hd19_def)
    have fb: "parse_fraction_block str strict = Inr (0, 19)"
      unfolding str_def by (rule fraction_block_absent [OF l]) simp
    have db: "parse_designator_block str 19 strict = Inr (19 + 1)"
      by (rule designator_Z) (simp_all add: str_def l char_at_def nth_append)
    have len: "length str = 20" by (simp add: str_def l)
    show ?thesis
      unfolding text_eq parse_timestamp_blocks [OF pf [of "''Z''", folded str_def] fb] db
      by (simp add: len z)
  next
    case True
    define ft where "ft = fraction_text (tm_frac_nanos bd)"
    note fs = fraction_text_spec [OF f, folded ft_def]
    define str where "str = hd19 @ CHR ''.'' # ft @ ''Z''"
    have text_eq: "canonical_text bd True = str"
      using True by (simp add: canonical_text_def str_def hd19_def ft_def)
    have ne: "ft \<noteq> []" using fs(2) by auto
    have t9: "take 9 ft = ft" "min 9 (length ft) = length ft" using fs(3) by simp_all
    have small: "length ft < 2 ^ 31" using fs(3) by simp
    have "parse_fraction_block str strict
            = Inr (digits_value (take 9 ft) * 10 ^ (9 - min 9 (length ft)), 20 + length ft)"
      unfolding str_def using fraction_block_present [OF l fs(1) _ small, of "''Z''" strict] ne fs(3)
      by simp
    then have fb: "parse_fraction_block str strict = Inr (tm_frac_nanos bd, 20 + length ft)"
      unfolding t9 fs(4) .
    have len: "length str = 21 + length ft" by (simp add: str_def l)
    have "char_at str (20 + length ft) = CHR ''Z''"
      using char_at_at [of "hd19 @ CHR ''.'' # ft" "20 + length ft" "CHR ''Z''" "[]"]
      by (simp add: str_def l)
    then have db: "parse_designator_block str (20 + length ft) strict = Inr (20 + length ft + 1)"
      by (intro designator_Z) (simp_all add: len)
    show ?thesis
      unfolding text_eq parse_timestamp_blocks [OF pf [of "CHR ''.'' # ft @ ''Z''", folded str_def] fb] db
      by (simp add: len)
  qed
qed

text \<open>
  Claim C1.  For every 64-bit instant \<open>t\<close> and every buffer of at least
  \<^verbatim>\<open>UT_MAX_STRING_LEN\<close> bytes, \<open>ut_format\<close> with \<^verbatim>\<open>include_nanos = true\<close> returns
  and leaves a text in the buffer, and \<open>ut_parse_strict\<close> of that text returns
  \<^verbatim>\<open>UT_OK\<close> and stores exactly \<open>t\<close>, whether the fraction of \<open>t\<close> is zero or not.
\<close>

theorem format_parse_round_trip:
  "UT_MAX_STRING_LEN \<le> buf_size \<Longrightarrow>
   \<exists>text. ut_format \<lparr> nanos = t \<rparr> (Some buf) buf_size True = Some (int (length text), Some text)
     \<and> ut_parse_strict (Some text) (Some old) = (UT_OK, Some \<lparr> nanos = t \<rparr>)"
proof -
  assume sz: "UT_MAX_STRING_LEN \<le> buf_size"
  obtain bd where bd: "ut_internal_from_nanos t = Some bd" and n: "normalized bd"
    and inv: "ut_internal_to_nanos (tm_year bd) (tm_month bd) (tm_day bd) (tm_hour bd) (tm_minute bd)
           (tm_second bd) (tm_frac_nanos bd) = t"
    by (rule from_nanos_normalized)
  have "ut_format \<lparr> nanos = t \<rparr> (Some buf) buf_size True
          = Some (int (length (canonical_text bd True)), Some (canonical_text bd True))"
    by (rule ut_format_eq [OF _ n sz]) (simp add: bd)
  moreover have "ut_parse_strict (Some (canonical_text bd True)) (Some old) = (UT_OK, Some \<lparr> nanos = t \<rparr>)"
    unfolding ut_parse_strict_def parse_canonical_text [OF n] inv ..
  ultimately show ?thesis by blast
qed

text \<open>The theorem at the test vector 1734146001123456789 and a 32-byte buffer.\<close>

theorem format_parse_round_trip_witness:
  "UT_MAX_STRING_LEN \<le> 32
   \<and> (\<exists>text. ut_format \<lparr> nanos = 1734146001123456789 \<rparr> (Some []) 32 True
                 = Some (int (length text), Some text)
         \<and> ut_parse_strict (Some text) (Some \<lparr> nanos = 0 \<rparr>)
             = (UT_OK, Some \<lparr> nanos = 1734146001123456789 \<rparr>))"
proof -
  have sz: "UT_MAX_STRING_LEN \<le> 32" by (simp add: UT_MAX_STRING_LEN_def)
  from sz format_parse_round_trip [OF sz, of 1734146001123456789 "[]" "\<lparr> nanos = 0 \<rparr>"]
  show ?thesis by (rule conjI)
qed

text \<open>
  Claim C10.  \<^verbatim>\<open>UT_MAX_STRING_LEN\<close> is 32.  For every timestamp and flag, \<open>ut_format\<close>
  returns -1 and leaves the buffer alone if the buffer pointer is \<^verbatim>\<open>NULL\<close> or the
  capacity is below 32; otherwise it returns the length of the text it leaves in the
  buffer, which is between 20 and 30 and contains no NUL, so the return value is -1
  exactly in the first case.
\<close>

theorem ut_format_result:
  "UT_MAX_STRING_LEN = 32
   \<and> (buf = None \<or> buf_size < UT_MAX_STRING_LEN \<longrightarrow>
        ut_format ts buf buf_size include_nanos = Some (- 1, buf))
   \<and> (buf \<noteq> None \<and> UT_MAX_STRING_LEN \<le> buf_size \<longrightarrow>
        (\<exists>text. ut_format ts buf buf_size include_nanos = Some (int (length text), Some text)
           \<and> 20 \<le> length text \<and> length text \<le> 30 \<and> CHR 0x00 \<notin> set text))"
proof (intro conjI impI)
  show "UT_MAX_STRING_LEN = 32" by (simp add: UT_MAX_STRING_LEN_def)
next
  assume "buf = None \<or> buf_size < UT_MAX_STRING_LEN"
  then show "ut_format ts buf buf_size include_nanos = Some (- 1, buf)"
    by (auto simp: ut_format_def)
next
  assume a: "buf \<noteq> None \<and> UT_MAX_STRING_LEN \<le> buf_size"
  then obtain b where b: "buf = Some b" by auto
  obtain bd where bd: "ut_internal_from_nanos (nanos ts) = Some bd" and n: "normalized bd"
    by (rule from_nanos_normalized)
  from a have sz: "UT_MAX_STRING_LEN \<le> buf_size" ..
  have "ut_format ts buf buf_size include_nanos
          = Some (int (length (canonical_text bd include_nanos)),
                  Some (canonical_text bd include_nanos))"
    unfolding b by (rule ut_format_eq [OF bd n sz])
  with length_canonical_text [OF n, of include_nanos]
  show "\<exists>text. ut_format ts buf buf_size include_nanos = Some (int (length text), Some text)
           \<and> 20 \<le> length text \<and> length text \<le> 30 \<and> CHR 0x00 \<notin> set text"
    by blast
qed

text \<open>
  The theorem at a capacity of 25, which would hold the 20 characters of the epoch
  without fraction and is refused, and at a capacity of 32.
\<close>

theorem ut_format_result_witness:
  "((Some [] = (None :: string option) \<or> 25 < UT_MAX_STRING_LEN)
      \<and> ut_format \<lparr> nanos = 0 \<rparr> (Some []) 25 False = Some (- 1, Some []))
   \<and> ((Some [] \<noteq> (None :: string option) \<and> UT_MAX_STRING_LEN \<le> 32)
      \<and> (\<exists>text. ut_format \<lparr> nanos = 0 \<rparr> (Some []) 32 False = Some (int (length text), Some text)
            \<and> 20 \<le> length text \<and> length text \<le> 30 \<and> CHR 0x00 \<notin> set text))"
proof -
  have small: "Some [] = (None :: string option) \<or> 25 < UT_MAX_STRING_LEN"
    and large: "Some [] \<noteq> (None :: string option) \<and> UT_MAX_STRING_LEN \<le> 32"
    by (simp_all add: UT_MAX_STRING_LEN_def)
  from ut_format_result [of "Some []" 25 "\<lparr> nanos = 0 \<rparr>" False] small
  have "ut_format \<lparr> nanos = 0 \<rparr> (Some []) 25 False = Some (- 1, Some [])"
    by blast
  moreover from ut_format_result [of "Some []" 32 "\<lparr> nanos = 0 \<rparr>" False] large
  have "\<exists>text. ut_format \<lparr> nanos = 0 \<rparr> (Some []) 32 False = Some (int (length text), Some text)
            \<and> 20 \<le> length text \<and> length text \<le> 30 \<and> CHR 0x00 \<notin> set text"
    by blast
  ultimately show ?thesis using small large by blast
qed


section \<open>Fraction, designator and offset\<close>

lemma designator_block_shift:
  "parse_designator_block (pre @ sfx) (length pre) strict =
     (case parse_designator_block sfx 0 strict of
        Inl err \<Rightarrow> Inl err
      | Inr p \<Rightarrow> Inr (length pre + p))"
proof -
  have ca: "char_at (pre @ sfx) (length pre + k) = char_at sfx k" for k
    by (simp add: char_at_def nth_append)
  have ca0: "char_at (pre @ sfx) (length pre) = char_at sfx 0"
    using ca [of 0] by simp
  show ?thesis
    by (simp add: parse_designator_block_def Let_def ca ca0)
qed

lemma parse_timestamp_suffix:
  assumes p: "accepted_prefix strict p" and e: "ends_prefix p sfx"
  shows "parse_timestamp (Some (p @ sfx)) (Some old) strict =
     (case parse_designator_block sfx 0 strict of
        Inl err \<Rightarrow> (err, Some old)
      | Inr pos \<Rightarrow>
          if pos \<noteq> length sfx then (UT_ERR_INVALID_FORMAT, Some old)
          else (UT_OK, Some \<lparr> nanos = prefix_nanos p \<rparr>))"
proof -
  define d where "d = take 19 p"
  define fr where "fr = drop 19 p"
  have pd: "p = d @ fr" by (simp add: d_def fr_def)
  have l: "length d = 19" using p by (simp add: d_def accepted_prefix_def)
  from p obtain y mo dd h mi s where pf: "parse_fields d = Inr (y, mo, dd, h, mi, s)"
    unfolding accepted_prefix_def d_def by (auto split: sum.splits)
  have pf': "parse_fields (p @ sfx) = Inr (y, mo, dd, h, mi, s)"
    using parse_fields_append [OF l, of "fr @ sfx"] pf by (simp add: pd)
  have fp: "fraction_part strict fr" using p by (simp add: accepted_prefix_def fr_def)
  have fb: "parse_fraction_block (p @ sfx) strict = Inr (fraction_value fr, length p)"
  proof (cases "fr = []")
    case True
    with e have "sfx = [] \<or> hd sfx \<noteq> CHR ''.''"
      by (simp add: ends_prefix_def fr_def)
    from fraction_block_absent [OF l this] True l show ?thesis
      by (simp add: pd fraction_value_def)
  next
    case False
    with fp obtain ds where fr: "fr = CHR ''.'' # ds" and ds: "ds \<noteq> []" "list_all is_digit_char ds"
      "strict \<longrightarrow> length ds \<le> 9" and small: "length ds < 2 ^ 31"
      unfolding fraction_part_def by (cases fr) auto
    from e False have "sfx = [] \<or> \<not> is_digit_char (hd sfx)"
      by (simp add: ends_prefix_def fr_def)
    from fraction_block_present [OF l ds(2) this small, of strict] ds(1,3) l show ?thesis
      by (auto simp add: pd fr fraction_value_def)
  qed
  have pn: "prefix_nanos p = ut_internal_to_nanos y mo dd h mi s (fraction_value fr)"
    using pf by (simp add: prefix_nanos_def d_def [symmetric] fr_def [symmetric])
  show ?thesis
    unfolding parse_timestamp_blocks [OF pf' fb] designator_block_shift pn
    by (simp split: sum.split)
qed

lemma designator_at_0:
  "parse_designator_block ''Z'' 0 strict = Inr 1"
  "parse_designator_block ''z'' 0 strict = (if strict then Inl UT_ERR_INVALID_FORMAT else Inr 1)"
  "parse_designator_block [] 0 strict = (if strict then Inl UT_ERR_INVALID_FORMAT else Inr 0)"
  by (simp_all add: parse_designator_block_def Let_def)

lemma designator_other:
  "c \<noteq> CHR ''Z'' \<Longrightarrow> c \<noteq> CHR ''z'' \<Longrightarrow> c \<noteq> CHR ''+'' \<Longrightarrow> c \<noteq> CHR ''-'' \<Longrightarrow>
   parse_designator_block (c # rest) 0 strict = (if strict then Inl UT_ERR_INVALID_FORMAT else Inr 0)"
  by (simp add: parse_designator_block_def Let_def)

lemma designator_offset:
  assumes "sign = CHR ''+'' \<or> sign = CHR ''-''"
  shows "parse_designator_block (sign # off) 0 strict =
     (if length off < 5 \<or> off ! 2 \<noteq> CHR '':'' \<or> \<not> list_all is_digit_char (take 2 off)
          \<or> \<not> list_all is_digit_char (take 2 (drop 3 off))
      then Inl UT_ERR_INVALID_FORMAT
      else if digits_value (take 2 off) \<noteq> 0 \<or> digits_value (take 2 (drop 3 off)) \<noteq> 0
      then Inl UT_ERR_UNSUPPORTED_OFFSET
      else if strict then Inl UT_ERR_UNSUPPORTED_OFFSET
      else Inr 6)"
proof (cases "length off < 5")
  case True
  with assms show ?thesis
    by (auto simp add: parse_designator_block_def Let_def)
next
  case False
  then have len: "5 \<le> length off" by simp
  have sg: "sign \<noteq> CHR ''Z''" "sign \<noteq> CHR ''z''" using assms by auto
  have c3: "char_at (sign # off) 3 = off ! 2" using len by (simp add: char_at_def)
  have oh: "ut_internal_parse_int (drop 1 (sign # off)) 2
              = (if list_all is_digit_char (take 2 off) then digits_value (take 2 off) else - 1)"
    using len by (simp add: ut_internal_parse_int_eq)
  have om: "ut_internal_parse_int (drop 4 (sign # off)) 2
              = (if list_all is_digit_char (take 2 (drop 3 off))
                 then digits_value (take 2 (drop 3 off)) else - 1)"
    using len by (simp add: ut_internal_parse_int_eq)
  have nn: "list_all is_digit_char (take 2 off) \<Longrightarrow> \<not> digits_value (take 2 off) < 0"
    "list_all is_digit_char (take 2 (drop 3 off)) \<Longrightarrow> \<not> digits_value (take 2 (drop 3 off)) < 0"
    using digits_value_nonneg by (simp_all add: not_less)
  have blk: "parse_designator_block (sign # off) 0 strict =
      (if off ! 2 \<noteq> CHR '':'' then Inl UT_ERR_INVALID_FORMAT
       else
         let off_hour = ut_internal_parse_int (drop 1 (sign # off)) 2;
             off_min = ut_internal_parse_int (drop 4 (sign # off)) 2
         in if off_hour < 0 \<or> off_min < 0 then Inl UT_ERR_INVALID_FORMAT
            else if off_hour \<noteq> 0 \<or> off_min \<noteq> 0 then Inl UT_ERR_UNSUPPORTED_OFFSET
            else if strict then Inl UT_ERR_UNSUPPORTED_OFFSET
            else Inr 6)"
    using len assms sg c3 by (auto simp add: parse_designator_block_def Let_def)
  show ?thesis
    unfolding blk oh om using len nn by (auto simp add: Let_def)
qed

lemma accepted_prefix_lenient: "accepted_prefix True p \<Longrightarrow> accepted_prefix False p"
  by (auto simp: accepted_prefix_def fraction_part_def)

lemma ends_prefix_simps:
  "ends_prefix p []" "ends_prefix p ''Z''" "ends_prefix p ''z''"
  "ends_prefix p (CHR ''+'' # off)" "ends_prefix p (CHR ''-'' # off)"
  by (simp_all add: ends_prefix_def)

lemma ends_prefix_Cons: "ends_prefix p [c] \<Longrightarrow> ends_prefix p (c # rest)"
  by (auto simp add: ends_prefix_def split: if_splits)

text \<open>
  Claim C4.  After an accepted prefix and a sign \<^verbatim>\<open>+\<close> or \<^verbatim>\<open>-\<close>, with \<open>off\<close> the
  characters after the sign: fewer than five characters, a third character other than
  a colon, or a non-digit among the two hour and the two minute characters give
  \<^verbatim>\<open>UT_ERR_INVALID_FORMAT\<close> in both modes.  Otherwise \<open>ut_parse_strict\<close> returns
  \<^verbatim>\<open>UT_ERR_UNSUPPORTED_OFFSET\<close> whatever the offset, zero included, and
  \<open>ut_parse_lenient\<close> returns \<^verbatim>\<open>UT_ERR_UNSUPPORTED_OFFSET\<close> for a non-zero offset and
  accepts the zero offset when exactly five characters follow the sign (anything after
  them is \<^verbatim>\<open>UT_ERR_INVALID_FORMAT\<close>), storing the instant of the prefix.
\<close>

theorem offset_designator:
  assumes "sign = CHR ''+'' \<or> sign = CHR ''-''"
  shows "(accepted_prefix True p \<longrightarrow>
            fst (ut_parse_strict (Some (p @ sign # off)) (Some old)) =
              (if length off < 5 \<or> off ! 2 \<noteq> CHR '':'' \<or> \<not> list_all is_digit_char (take 2 off)
                  \<or> \<not> list_all is_digit_char (take 2 (drop 3 off))
               then UT_ERR_INVALID_FORMAT else UT_ERR_UNSUPPORTED_OFFSET))
       \<and> (accepted_prefix False p \<longrightarrow>
            fst (ut_parse_lenient (Some (p @ sign # off)) (Some old)) =
              (if length off < 5 \<or> off ! 2 \<noteq> CHR '':'' \<or> \<not> list_all is_digit_char (take 2 off)
                  \<or> \<not> list_all is_digit_char (take 2 (drop 3 off))
               then UT_ERR_INVALID_FORMAT
               else if digits_value (take 2 off) \<noteq> 0 \<or> digits_value (take 2 (drop 3 off)) \<noteq> 0
               then UT_ERR_UNSUPPORTED_OFFSET
               else if length off = 5 then UT_OK else UT_ERR_INVALID_FORMAT))
       \<and> (accepted_prefix False p \<longrightarrow>
            ut_parse_lenient (Some (p @ sign # ''00:00'')) (Some old)
              = (UT_OK, Some \<lparr> nanos = prefix_nanos p \<rparr>))"
proof -
  have e: "ends_prefix p (sign # x)" for x
    using assms by (auto simp: ends_prefix_simps)
  have z: "digits_value ''00'' = 0" by (simp add: digits_value_def)
  show ?thesis
    unfolding ut_parse_strict_def ut_parse_lenient_def
    by (intro conjI impI)
      (simp_all add: parse_timestamp_suffix [OF _ e] designator_offset [OF assms] z)
qed

text \<open>
  Claim C5, amended.  After an accepted prefix, at the designator position: \<^verbatim>\<open>Z\<close> and
  the end of input is accepted in both modes; \<^verbatim>\<open>z\<close> and the end of input is
  \<^verbatim>\<open>UT_ERR_INVALID_FORMAT\<close> in strict mode and accepted in lenient mode; no designator
  is \<^verbatim>\<open>UT_ERR_INVALID_FORMAT\<close> in strict mode and accepted in lenient mode, with the
  result of \<open>ut_parse_strict\<close> on the same text followed by \<^verbatim>\<open>Z\<close>; any other
  character there is \<^verbatim>\<open>UT_ERR_INVALID_FORMAT\<close> in both modes (lenient mode leaves it
  unconsumed and the end-of-input check refuses it).
\<close>

theorem utc_designator:
  "(accepted_prefix True p \<longrightarrow>
      ut_parse_strict (Some (p @ ''Z'')) (Some old) = (UT_OK, Some \<lparr> nanos = prefix_nanos p \<rparr>)
      \<and> fst (ut_parse_strict (Some (p @ ''z'')) (Some old)) = UT_ERR_INVALID_FORMAT
      \<and> fst (ut_parse_strict (Some p) (Some old)) = UT_ERR_INVALID_FORMAT
      \<and> (other_designator p c \<longrightarrow>
            fst (ut_parse_strict (Some (p @ c # rest)) (Some old)) = UT_ERR_INVALID_FORMAT)
      \<and> ut_parse_lenient (Some p) (Some old) = ut_parse_strict (Some (p @ ''Z'')) (Some old))
   \<and> (accepted_prefix False p \<longrightarrow>
      ut_parse_lenient (Some (p @ ''Z'')) (Some old) = (UT_OK, Some \<lparr> nanos = prefix_nanos p \<rparr>)
      \<and> ut_parse_lenient (Some (p @ ''z'')) (Some old) = (UT_OK, Some \<lparr> nanos = prefix_nanos p \<rparr>)
      \<and> ut_parse_lenient (Some p) (Some old) = (UT_OK, Some \<lparr> nanos = prefix_nanos p \<rparr>)
      \<and> (other_designator p c \<longrightarrow>
            fst (ut_parse_lenient (Some (p @ c # rest)) (Some old)) = UT_ERR_INVALID_FORMAT))"
proof -
  have nil: "parse_timestamp (Some p) (Some old) strict =
     (case parse_designator_block [] 0 strict of
        Inl err \<Rightarrow> (err, Some old)
      | Inr pos \<Rightarrow>
          if pos \<noteq> length ([] :: string) then (UT_ERR_INVALID_FORMAT, Some old)
          else (UT_OK, Some \<lparr> nanos = prefix_nanos p \<rparr>))"
    if "accepted_prefix strict p" for strict
    using parse_timestamp_suffix [OF that ends_prefix_simps(1), of old] by simp
  have other: "fst (parse_timestamp (Some (p @ c # rest)) (Some old) strict) = UT_ERR_INVALID_FORMAT"
    if "accepted_prefix strict p" "other_designator p c" for strict
  proof -
    from that(2) have c: "c \<noteq> CHR ''Z''" "c \<noteq> CHR ''z''" "c \<noteq> CHR ''+''" "c \<noteq> CHR ''-''"
      and e: "ends_prefix p (c # rest)"
      by (simp_all add: other_designator_def ends_prefix_Cons)
    show ?thesis
      by (simp add: parse_timestamp_suffix [OF that(1) e] designator_other [OF c])
  qed
  show ?thesis
    unfolding ut_parse_strict_def ut_parse_lenient_def
    by (intro conjI impI)
      (simp_all add: parse_timestamp_suffix ends_prefix_simps designator_at_0 nil other
         accepted_prefix_lenient)
qed

lemma fraction_error:
  assumes "length d = 19" and "parse_fields d = Inr (y, mo, dd, h, mi, s)"
    and "parse_fraction_block (d @ CHR ''.'' # ds @ rest) strict = Inl e"
  shows "fst (parse_timestamp (Some (d @ CHR ''.'' # ds @ rest)) (Some old) strict) = e"
proof -
  have "parse_fields (d @ CHR ''.'' # ds @ rest) = Inr (y, mo, dd, h, mi, s)"
    using parse_fields_append [OF assms(1), of "CHR ''.'' # ds @ rest"] assms(2) by simp
  with assms(3) show ?thesis by (simp add: parse_timestamp_def)
qed

lemma fraction_then_Z:
  assumes d: "length d = 19" and pf: "parse_fields d = Inr (y, mo, dd, h, mi, s)"
    and fb: "parse_fraction_block (d @ CHR ''.'' # ds @ ''Z'') strict = Inr (frac, 20 + length ds)"
  shows "parse_timestamp (Some (d @ CHR ''.'' # ds @ ''Z'')) (Some old) strict
           = (UT_OK, Some \<lparr> nanos = ut_internal_to_nanos y mo dd h mi s frac \<rparr>)"
proof -
  have pf': "parse_fields (d @ CHR ''.'' # ds @ ''Z'') = Inr (y, mo, dd, h, mi, s)"
    using parse_fields_append [OF d, of "CHR ''.'' # ds @ ''Z''"] pf by simp
  have "char_at (d @ CHR ''.'' # ds @ ''Z'') (20 + length ds) = CHR ''Z''"
    using char_at_at [of "d @ CHR ''.'' # ds" "20 + length ds" "CHR ''Z''" "[]"] d by simp
  then have db: "parse_designator_block (d @ CHR ''.'' # ds @ ''Z'') (20 + length ds) strict
                   = Inr (20 + length ds + 1)"
    by (intro designator_Z) (simp_all add: d)
  show ?thesis
    unfolding parse_timestamp_blocks [OF pf' fb] db by (simp add: d)
qed

text \<open>
  What claim C6 says, for fewer than \<open>2 ^ 31\<close> digits.  After 19 mandatory characters
  that pass \<open>parse_fields\<close> and a dot, with \<open>ds\<close> the digits that follow and \<open>rest\<close> not
  starting with a digit: no digit is \<^verbatim>\<open>UT_ERR_INVALID_FORMAT\<close> in both modes; more than
  nine digits are \<^verbatim>\<open>UT_ERR_FRACTION_TOO_LONG\<close> in strict mode, and in lenient mode the
  fraction is the value of the first nine digits; one to nine digits are read as the
  value of the digits padded on the right with zeros to nine.
\<close>

lemma fraction_digits:
  assumes d: "length d = 19" and pf: "parse_fields d = Inr (y, mo, dd, h, mi, s)"
    and ds: "list_all is_digit_char ds" and rest: "rest = [] \<or> \<not> is_digit_char (hd rest)"
    and small: "length ds < 2 ^ 31"
  shows "(ds = [] \<longrightarrow>
            fst (ut_parse_strict (Some (d @ ''.'' @ ds @ rest)) (Some old)) = UT_ERR_INVALID_FORMAT
            \<and> fst (ut_parse_lenient (Some (d @ ''.'' @ ds @ rest)) (Some old)) = UT_ERR_INVALID_FORMAT)
       \<and> (9 < length ds \<longrightarrow>
            fst (ut_parse_strict (Some (d @ ''.'' @ ds @ rest)) (Some old)) = UT_ERR_FRACTION_TOO_LONG
            \<and> ut_parse_lenient (Some (d @ ''.'' @ ds @ ''Z'')) (Some old)
                = (UT_OK, Some \<lparr> nanos = ut_internal_to_nanos y mo dd h mi s
                                             (digits_value (take 9 ds)) \<rparr>))
       \<and> (1 \<le> length ds \<and> length ds \<le> 9 \<longrightarrow>
            ut_parse_strict (Some (d @ ''.'' @ ds @ ''Z'')) (Some old)
                = (UT_OK, Some \<lparr> nanos = ut_internal_to_nanos y mo dd h mi s
                     (digits_value (ds @ replicate (9 - length ds) (CHR ''0''))) \<rparr>)
            \<and> ut_parse_lenient (Some (d @ ''.'' @ ds @ ''Z'')) (Some old)
                = (UT_OK, Some \<lparr> nanos = ut_internal_to_nanos y mo dd h mi s
                     (digits_value (ds @ replicate (9 - length ds) (CHR ''0''))) \<rparr>))"
proof -
  note err = fraction_error [OF d pf]
  have ok: "parse_timestamp (Some (d @ CHR ''.'' # ds @ ''Z'')) (Some old) strict
              = (UT_OK, Some \<lparr> nanos = ut_internal_to_nanos y mo dd h mi s
                           (digits_value (take 9 ds) * 10 ^ (9 - min 9 (length ds))) \<rparr>)"
    if "ds \<noteq> []" "strict \<longrightarrow> length ds \<le> 9" for strict
  proof -
    have fb: "parse_fraction_block (d @ CHR ''.'' # ds @ ''Z'') strict
                = Inr (digits_value (take 9 ds) * 10 ^ (9 - min 9 (length ds)), 20 + length ds)"
      using fraction_block_present [OF d ds _ small, of "''Z''" strict] that by auto
    show ?thesis
      by (rule fraction_then_Z [OF d pf fb])
  qed
  show ?thesis
    unfolding ut_parse_strict_def ut_parse_lenient_def
  proof (intro conjI impI)
    assume "ds = []"
    then have "parse_fraction_block (d @ CHR ''.'' # ds @ rest) strict = Inl UT_ERR_INVALID_FORMAT"
      for strict
      using fraction_block_present [OF d ds rest small, of strict] by simp
    from err [OF this]
    show "fst (parse_timestamp (Some (d @ ''.'' @ ds @ rest)) (Some old) True) = UT_ERR_INVALID_FORMAT"
      and "fst (parse_timestamp (Some (d @ ''.'' @ ds @ rest)) (Some old) False) = UT_ERR_INVALID_FORMAT"
      by simp_all
  next
    assume long: "9 < length ds"
    then have "parse_fraction_block (d @ CHR ''.'' # ds @ rest) True = Inl UT_ERR_FRACTION_TOO_LONG"
      using fraction_block_present [OF d ds rest small, of True] by auto
    from err [OF this]
    show "fst (parse_timestamp (Some (d @ ''.'' @ ds @ rest)) (Some old) True) = UT_ERR_FRACTION_TOO_LONG"
      by simp
    from long have "ds \<noteq> []" by auto
    from ok [OF this, of False] long
    show "parse_timestamp (Some (d @ ''.'' @ ds @ ''Z'')) (Some old) False
            = (UT_OK, Some \<lparr> nanos = ut_internal_to_nanos y mo dd h mi s (digits_value (take 9 ds)) \<rparr>)"
      by simp
  next
    assume r: "1 \<le> length ds \<and> length ds \<le> 9"
    then have ne: "ds \<noteq> []" by auto
    from r have v: "digits_value (take 9 ds) * 10 ^ (9 - min 9 (length ds))
                      = digits_value (ds @ replicate (9 - length ds) (CHR ''0''))"
      by (simp add: digits_value_zeros)
    from ok [OF ne, of True] ok [OF ne, of False] r
    show "parse_timestamp (Some (d @ ''.'' @ ds @ ''Z'')) (Some old) True
            = (UT_OK, Some \<lparr> nanos = ut_internal_to_nanos y mo dd h mi s
                     (digits_value (ds @ replicate (9 - length ds) (CHR ''0''))) \<rparr>)"
      and "parse_timestamp (Some (d @ ''.'' @ ds @ ''Z'')) (Some old) False
            = (UT_OK, Some \<lparr> nanos = ut_internal_to_nanos y mo dd h mi s
                     (digits_value (ds @ replicate (9 - length ds) (CHR ''0''))) \<rparr>)"
      unfolding v by simp_all
  qed
qed

text \<open>
  The same input shapes when the count of the digits does not survive the cast.  With
  \<open>2 ^ 32 + 1\<close> digits the count is cast to 1: the first digit alone is the fraction and
  the text is accepted, in strict mode too.  With \<open>2 ^ 31\<close> digits the count is cast to
  a negative number, which \<^verbatim>\<open>ut_internal_parse_fraction\<close> refuses.
\<close>

lemma fraction_count_cast_to_1:
  assumes d: "length d = 19" and pf: "parse_fields d = Inr (y, mo, dd, h, mi, s)"
    and ds: "list_all is_digit_char ds" and n: "length ds = 4294967297"
  shows "parse_timestamp (Some (d @ CHR ''.'' # ds @ ''Z'')) (Some old) strict
           = (UT_OK, Some \<lparr> nanos = ut_internal_to_nanos y mo dd h mi s
                                        (digits_value (take 1 ds) * 100000000) \<rparr>)"
proof -
  have z: "''Z'' = [] \<or> \<not> is_digit_char (hd ''Z'')" by simp
  have t1: "take 1 (ds @ ''Z'') = take 1 ds" using n by simp
  have dg: "list_all is_digit_char (take 1 ds)"
    using ds by (auto simp: list_all_iff dest: in_set_takeD)
  have "ut_internal_parse_fraction (ds @ ''Z'') (int 1)
          = (if list_all is_digit_char (take 1 (ds @ ''Z''))
             then digits_value (take 1 (ds @ ''Z'')) * 10 ^ (9 - 1) else - 1)"
    using n by (intro ut_internal_parse_fraction_eq) simp_all
  then have pfr: "ut_internal_parse_fraction (ds @ ''Z'') 1 = digits_value (take 1 ds) * 100000000"
    unfolding t1 using dg by simp
  have nn: "\<not> digits_value (take 1 ds) * 100000000 < 0"
    using digits_value_nonneg [OF dg] by (simp add: not_less)
  have fb: "parse_fraction_block (d @ CHR ''.'' # ds @ ''Z'') strict
              = Inr (digits_value (take 1 ds) * 100000000, 20 + length ds)"
    unfolding fraction_block_cast [OF d ds z] n size_to_int_wrap(1) using nn
    by (simp add: pfr)
  show ?thesis
    by (rule fraction_then_Z [OF d pf fb])
qed

lemma fraction_count_cast_negative:
  assumes d: "length d = 19" and pf: "parse_fields d = Inr (y, mo, dd, h, mi, s)"
    and ds: "list_all is_digit_char ds" and n: "length ds = 2147483648"
  shows "fst (parse_timestamp (Some (d @ CHR ''.'' # ds @ ''Z'')) (Some old) strict)
           = UT_ERR_INVALID_FORMAT"
proof -
  have z: "''Z'' = [] \<or> \<not> is_digit_char (hd ''Z'')" by simp
  have "parse_fraction_block (d @ CHR ''.'' # ds @ ''Z'') strict = Inl UT_ERR_INVALID_FORMAT"
    unfolding fraction_block_cast [OF d ds z] n size_to_int_wrap(2)
    by (simp add: ut_internal_parse_fraction_def)
  from fraction_error [OF d pf this] show ?thesis .
qed

lemma list_all_replicate: "P x \<Longrightarrow> list_all P (replicate n x)"
  by (induction n) simp_all

lemma take_1_replicate: "0 < n \<Longrightarrow> take 1 (replicate n x) = [x]"
  by (cases n) simp_all

lemma example_prefix:
  "parse_fields ''2024-12-14T03:13:21'' = Inr (2024, 12, 14, 3, 13, 21)"
  by code_simp

lemma example_prefix_accepted:
  "accepted_prefix True ''2024-12-14T03:13:21''" "accepted_prefix False ''2024-12-14T03:13:21''"
  "accepted_prefix True ''2024-12-14T03:13:21.5''" "accepted_prefix False ''2024-12-14T03:13:21.5''"
  by (simp_all add: accepted_prefix_def example_prefix fraction_part_def is_digit_char_def)

lemma example_nanos:
  "ut_internal_to_nanos 2024 12 14 3 13 21 0 = 1734146001000000000"
  "ut_internal_to_nanos 2024 12 14 3 13 21 500000000 = 1734146001500000000"
  "ut_internal_to_nanos 2024 12 14 3 13 21 50000000 = 1734146001050000000"
  "ut_internal_to_nanos 2024 12 14 3 13 21 123456789 = 1734146001123456789"
  by code_simp+

lemma example_prefix_nanos:
  "prefix_nanos ''2024-12-14T03:13:21'' = 1734146001000000000"
  by (simp add: prefix_nanos_def example_prefix fraction_value_def example_nanos)

text \<open>
  Claim C5 as stated fails: a character other than \<^verbatim>\<open>Z z + -\<close> at the designator
  position is not accepted by \<open>ut_parse_lenient\<close>.
\<close>

theorem utc_designator_lenient_other_character:
  "fst (ut_parse_lenient (Some ''2024-12-14T03:13:21X'') (Some \<lparr> nanos = 0 \<rparr>))
     = UT_ERR_INVALID_FORMAT"
  by code_simp

text \<open>
  The amended claim at the prefix of the test vector, with a space as the other
  character; the lenient result without designator is the strict result with \<^verbatim>\<open>Z\<close>.
\<close>

theorem utc_designator_witness:
  "ut_parse_strict (Some ''2024-12-14T03:13:21Z'') (Some \<lparr> nanos = 0 \<rparr>)
     = (UT_OK, Some \<lparr> nanos = 1734146001000000000 \<rparr>)
   \<and> fst (ut_parse_strict (Some ''2024-12-14T03:13:21z'') (Some \<lparr> nanos = 0 \<rparr>)) = UT_ERR_INVALID_FORMAT
   \<and> fst (ut_parse_strict (Some ''2024-12-14T03:13:21'') (Some \<lparr> nanos = 0 \<rparr>)) = UT_ERR_INVALID_FORMAT
   \<and> fst (ut_parse_strict (Some ''2024-12-14T03:13:21 '') (Some \<lparr> nanos = 0 \<rparr>)) = UT_ERR_INVALID_FORMAT
   \<and> ut_parse_lenient (Some ''2024-12-14T03:13:21'') (Some \<lparr> nanos = 0 \<rparr>)
       = ut_parse_strict (Some ''2024-12-14T03:13:21Z'') (Some \<lparr> nanos = 0 \<rparr>)
   \<and> ut_parse_lenient (Some ''2024-12-14T03:13:21Z'') (Some \<lparr> nanos = 0 \<rparr>)
       = (UT_OK, Some \<lparr> nanos = 1734146001000000000 \<rparr>)
   \<and> ut_parse_lenient (Some ''2024-12-14T03:13:21z'') (Some \<lparr> nanos = 0 \<rparr>)
       = (UT_OK, Some \<lparr> nanos = 1734146001000000000 \<rparr>)
   \<and> ut_parse_lenient (Some ''2024-12-14T03:13:21'') (Some \<lparr> nanos = 0 \<rparr>)
       = (UT_OK, Some \<lparr> nanos = 1734146001000000000 \<rparr>)
   \<and> fst (ut_parse_lenient (Some ''2024-12-14T03:13:21 '') (Some \<lparr> nanos = 0 \<rparr>)) = UT_ERR_INVALID_FORMAT"
proof -
  have o: "other_designator ''2024-12-14T03:13:21'' (CHR '' '')"
    by (simp add: other_designator_def ends_prefix_def)
  from utc_designator [of "''2024-12-14T03:13:21''" "\<lparr> nanos = 0 \<rparr>" "CHR '' ''" "[]"]
    example_prefix_accepted(1,2) o
  show ?thesis
    by (simp add: example_prefix_nanos)
qed

text \<open>
  Claim C4 at a zero offset, at a non-zero offset after a fraction, and at an offset
  one character short.
\<close>

theorem offset_designator_witness:
  "fst (ut_parse_strict (Some ''2024-12-14T03:13:21+00:00'') (Some \<lparr> nanos = 0 \<rparr>))
     = UT_ERR_UNSUPPORTED_OFFSET
   \<and> ut_parse_lenient (Some ''2024-12-14T03:13:21+00:00'') (Some \<lparr> nanos = 0 \<rparr>)
       = (UT_OK, Some \<lparr> nanos = 1734146001000000000 \<rparr>)
   \<and> fst (ut_parse_strict (Some ''2024-12-14T03:13:21.5-05:30'') (Some \<lparr> nanos = 0 \<rparr>))
       = UT_ERR_UNSUPPORTED_OFFSET
   \<and> fst (ut_parse_lenient (Some ''2024-12-14T03:13:21.5-05:30'') (Some \<lparr> nanos = 0 \<rparr>))
       = UT_ERR_UNSUPPORTED_OFFSET
   \<and> fst (ut_parse_strict (Some ''2024-12-14T03:13:21+0:00'') (Some \<lparr> nanos = 0 \<rparr>))
       = UT_ERR_INVALID_FORMAT
   \<and> fst (ut_parse_lenient (Some ''2024-12-14T03:13:21+0:00'') (Some \<lparr> nanos = 0 \<rparr>))
       = UT_ERR_INVALID_FORMAT"
proof -
  have plus: "CHR ''+'' = CHR ''+'' \<or> CHR ''+'' = CHR ''-''"
    and minus: "CHR ''-'' = CHR ''+'' \<or> CHR ''-'' = CHR ''-''"
    by simp_all
  have dv: "digits_value ''05'' = 5" "digits_value ''30'' = 30"
    by (simp_all add: digits_value_def)
  from offset_designator [OF plus, of "''2024-12-14T03:13:21''" "''00:00''" "\<lparr> nanos = 0 \<rparr>"]
    offset_designator [OF minus, of "''2024-12-14T03:13:21.5''" "''05:30''" "\<lparr> nanos = 0 \<rparr>"]
    offset_designator [OF plus, of "''2024-12-14T03:13:21''" "''0:00''" "\<lparr> nanos = 0 \<rparr>"]
    example_prefix_accepted
  show ?thesis
    by (simp add: example_prefix_nanos is_digit_char_def dv)
qed

text \<open>
  The fraction at no digit, at ten digits (the tenth is dropped, not rounded), and at
  the fractions \<^verbatim>\<open>5\<close> and \<^verbatim>\<open>050\<close>.
\<close>

lemma fraction_digits_examples:
  "fst (ut_parse_strict (Some ''2024-12-14T03:13:21.Z'') (Some \<lparr> nanos = 0 \<rparr>)) = UT_ERR_INVALID_FORMAT
   \<and> fst (ut_parse_lenient (Some ''2024-12-14T03:13:21.Z'') (Some \<lparr> nanos = 0 \<rparr>)) = UT_ERR_INVALID_FORMAT
   \<and> fst (ut_parse_strict (Some ''2024-12-14T03:13:21.1234567899Z'') (Some \<lparr> nanos = 0 \<rparr>))
       = UT_ERR_FRACTION_TOO_LONG
   \<and> ut_parse_lenient (Some ''2024-12-14T03:13:21.1234567899Z'') (Some \<lparr> nanos = 0 \<rparr>)
       = (UT_OK, Some \<lparr> nanos = 1734146001123456789 \<rparr>)
   \<and> ut_parse_strict (Some ''2024-12-14T03:13:21.5Z'') (Some \<lparr> nanos = 0 \<rparr>)
       = (UT_OK, Some \<lparr> nanos = 1734146001500000000 \<rparr>)
   \<and> ut_parse_lenient (Some ''2024-12-14T03:13:21.050Z'') (Some \<lparr> nanos = 0 \<rparr>)
       = (UT_OK, Some \<lparr> nanos = 1734146001050000000 \<rparr>)"
proof -
  have l: "length ''2024-12-14T03:13:21'' = 19" by simp
  have z: "''Z'' = [] \<or> \<not> is_digit_char (hd ''Z'')" by simp
  have d: "list_all is_digit_char []" "list_all is_digit_char ''1234567899''"
    "list_all is_digit_char ''5''" "list_all is_digit_char ''050''"
    by (simp_all add: is_digit_char_def)
  have b: "length ([] :: string) < 2 ^ 31" "length ''1234567899'' < 2 ^ 31"
    "length ''5'' < 2 ^ 31" "length ''050'' < 2 ^ 31"
    by simp_all
  have dv: "digits_value (take 9 ''1234567899'') = 123456789"
    "digits_value (''5'' @ replicate (9 - length ''5'') (CHR ''0'')) = 500000000"
    "digits_value (''050'' @ replicate (9 - length ''050'') (CHR ''0'')) = 50000000"
    by (simp_all add: digits_value_def numeral_eq_Suc)
  from fraction_digits [OF l example_prefix d(1) z b(1), of "\<lparr> nanos = 0 \<rparr>"]
    fraction_digits [OF l example_prefix d(2) z b(2), of "\<lparr> nanos = 0 \<rparr>"]
    fraction_digits [OF l example_prefix d(3) z b(3), of "\<lparr> nanos = 0 \<rparr>"]
    fraction_digits [OF l example_prefix d(4) z b(4), of "\<lparr> nanos = 0 \<rparr>"]
  show ?thesis
    unfolding dv example_nanos by simp
qed

text \<open>
  Claim C6 fails on the code.  The number of fraction digits is cast from \<^verbatim>\<open>size_t\<close> to
  \<^verbatim>\<open>int\<close> before it is compared with 0 and 9.  A fraction of \<open>2 ^ 32 + 1\<close> digits has
  the count 1 after the cast, so \<open>ut_parse_strict\<close> does not return
  \<^verbatim>\<open>UT_ERR_FRACTION_TOO_LONG\<close> but accepts the text with the fraction .1; a fraction of
  \<open>2 ^ 31\<close> digits has a negative count, and \<open>ut_parse_lenient\<close> does not truncate it to
  nine digits but returns \<^verbatim>\<open>UT_ERR_INVALID_FORMAT\<close>.
\<close>

theorem fraction_digit_count_wraps:
  "ut_parse_strict
     (Some (''2024-12-14T03:13:21'' @ CHR ''.'' # replicate 4294967297 (CHR ''1'') @ ''Z''))
     (Some \<lparr> nanos = 0 \<rparr>)
     = (UT_OK, Some \<lparr> nanos = 1734146001100000000 \<rparr>)
   \<and> fst (ut_parse_lenient
            (Some (''2024-12-14T03:13:21'' @ CHR ''.'' # replicate 2147483648 (CHR ''1'') @ ''Z''))
            (Some \<lparr> nanos = 0 \<rparr>))
       = UT_ERR_INVALID_FORMAT"
proof -
  have l: "length ''2024-12-14T03:13:21'' = 19" by simp
  have dg: "list_all is_digit_char (replicate n (CHR ''1''))" for n
    by (rule list_all_replicate) (simp add: is_digit_char_def)
  have t: "take 1 (replicate 4294967297 (CHR ''1'')) = ''1''"
    by (rule take_1_replicate) simp
  have v: "digits_value ''1'' * 100000000 = 100000000"
    by (simp add: digits_value_def)
  have n: "ut_internal_to_nanos 2024 12 14 3 13 21 100000000 = 1734146001100000000"
    by code_simp
  have "ut_parse_strict
     (Some (''2024-12-14T03:13:21'' @ CHR ''.'' # replicate 4294967297 (CHR ''1'') @ ''Z''))
     (Some \<lparr> nanos = 0 \<rparr>)
     = (UT_OK, Some \<lparr> nanos = 1734146001100000000 \<rparr>)"
    unfolding ut_parse_strict_def
      fraction_count_cast_to_1 [OF l example_prefix dg length_replicate] t v n ..
  moreover have "fst (ut_parse_lenient
            (Some (''2024-12-14T03:13:21'' @ CHR ''.'' # replicate 2147483648 (CHR ''1'') @ ''Z''))
            (Some \<lparr> nanos = 0 \<rparr>))
       = UT_ERR_INVALID_FORMAT"
    unfolding ut_parse_lenient_def
    by (rule fraction_count_cast_negative [OF l example_prefix dg length_replicate])
  ultimately show ?thesis by (rule conjI)
qed


section \<open>ISO week date\<close>

lemma leap_year_eval:
  "ut_internal_is_leap_year y \<longleftrightarrow> (y mod 4 = 0 \<and> y mod 100 \<noteq> 0) \<or> y mod 400 = 0"
  by (simp add: ut_internal_is_leap_year_def smod_zero_iff)

lemma from_nanos_minus_1:
  "ut_internal_from_nanos (- 1) =
     Some \<lparr> tm_year = 1969, tm_month = 12, tm_day = 31, tm_hour = 23, tm_minute = 59,
            tm_second = 59, tm_frac_nanos = 999999999 \<rparr>"
proof -
  have mw: "month_walk 1969 1 364 = Some (12, 30)"
    by (simp add: month_walk.simps ut_internal_days_in_month_def DAYS_IN_MONTH_def leap_year_eval)
  show ?thesis
    unfolding from_nanos_alt
    by (simp add: mw year_walk_down.simps days_in_year_def leap_year_eval)
qed

text \<open>
  Claim C8 fails on the code.  \<open>day_of_week_from_nanos\<close> divides the nanoseconds by the
  length of a day with C's truncating division and does not borrow a day for a
  negative remainder, as \<open>ut_internal_from_nanos\<close> does.  One nanosecond before the epoch
  the date is 1969-12-31, a Wednesday (3), and \<open>ut_to_iso_week\<close> returns weekday 4 in
  week 53 of 1969; the ISO week date of that day is 1970-W01-3.
\<close>

theorem iso_week_before_epoch:
  "ut_internal_from_nanos (- 1) =
     Some \<lparr> tm_year = 1969, tm_month = 12, tm_day = 31, tm_hour = 23, tm_minute = 59,
            tm_second = 59, tm_frac_nanos = 999999999 \<rparr>
   \<and> spec_weekday_of_date 1969 12 31 = 3
   \<and> ut_to_iso_week \<lparr> nanos = - 1 \<rparr> (Some 0) (Some 0) (Some 0)
       = Some (Some 1969, Some 53, Some 4)"
proof -
  have dw: "day_of_week_from_nanos (- 1) = 3"
    by (simp add: day_of_week_from_nanos_def signed_divide_int_def signed_modulo_int_def)
  have wd: "spec_weekday_of_date 1969 12 31 = 3"
    by code_simp
  have "ut_to_iso_week \<lparr> nanos = - 1 \<rparr> (Some 0) (Some 0) (Some 0)
          = Some (Some 1969, Some 53, Some 4)"
    by (simp add: ut_to_iso_week_def from_nanos_minus_1 dw day_of_year_loop.simps
          ut_internal_days_in_month_def DAYS_IN_MONTH_def leap_year_eval)
  with from_nanos_minus_1 wd show ?thesis by simp
qed

text \<open>The test vector of the claim, and the weekday from the epoch on.\<close>

lemma iso_week_2024_12_14:
  "ut_to_iso_week \<lparr> nanos = 1734146001000000000 \<rparr> (Some 0) (Some 0) (Some 0)
     = Some (Some 2024, Some 50, Some 6)"
proof -
  have yw: "year_walk_up 1970 20071 = (2024, 348)"
    by (simp add: year_walk_up.simps days_in_year_def leap_year_eval)
  have mw: "month_walk 2024 1 348 = Some (12, 13)"
    by (simp add: month_walk.simps ut_internal_days_in_month_def DAYS_IN_MONTH_def leap_year_eval)
  have fn: "ut_internal_from_nanos 1734146001000000000 =
     Some \<lparr> tm_year = 2024, tm_month = 12, tm_day = 14, tm_hour = 3, tm_minute = 13,
            tm_second = 21, tm_frac_nanos = 0 \<rparr>"
    unfolding from_nanos_alt by (simp add: yw mw)
  have dw: "day_of_week_from_nanos 1734146001000000000 = 5"
    by (simp add: day_of_week_from_nanos_def signed_divide_int_def signed_modulo_int_def)
  show ?thesis
    by (simp add: ut_to_iso_week_def fn dw day_of_year_loop.simps
          ut_internal_days_in_month_def DAYS_IN_MONTH_def leap_year_eval)
qed

lemma iso_weekday_from_epoch_on:
  assumes "0 \<le> sint (nanos ts)"
  shows "\<exists>bd wy wk. ut_internal_from_nanos (nanos ts) = Some bd
           \<and> ut_to_iso_week ts (Some a) (Some b) (Some c)
               = Some (Some wy, Some wk,
                       Some (spec_weekday_of_date (tm_year bd) (tm_month bd) (tm_day bd)))"
proof -
  obtain bd where bd: "ut_internal_from_nanos (nanos ts) = Some bd"
    and days: "days_from_epoch (tm_year bd) (tm_month bd) (tm_day bd)
                 = sint (nanos ts) div 1000000000 div 86400"
    by (rule from_nanos_normalized)
  define D where "D = sint (nanos ts) div 1000000000 div 86400"
  have D: "sint (nanos ts) div 86400000000000 = D"
    unfolding D_def using zdiv_zmult2_eq [of 86400 "sint (nanos ts)" 1000000000] by simp
  have D0: "0 \<le> D" using assms by (simp add: D_def pos_imp_zdiv_nonneg_iff)
  have "day_of_week_from_nanos (nanos ts) = (D + 3) mod 7"
    using assms D0 by (simp add: day_of_week_from_nanos_def nonneg_sdiv nonneg_smod D Let_def not_less)
  then have dw: "day_of_week_from_nanos (nanos ts) + 1
                   = spec_weekday_of_date (tm_year bd) (tm_month bd) (tm_day bd)"
    by (simp add: spec_weekday_of_date_def days D_def)
  show ?thesis
    by (simp add: ut_to_iso_week_def bd Let_def split_beta dw)
qed

end
